theory Spec2Isabelle
  imports Complex_Main "HOL-Library.Word"
begin

section \<open>Data model of \<^verbatim>\<open>immutable_map.h\<close>\<close>

text \<open>
  The enums \<^verbatim>\<open>color_t { BLACK = 0, RED = 1 }\<close> and \<^verbatim>\<open>side_t { LEFT = 0, RIGHT = 1 }\<close>.
  The source computes the other side as \<^verbatim>\<open>1 - side\<close>.
\<close>

datatype color_t = BLACK | RED

datatype side_t = LEFT | RIGHT

fun opposite :: "side_t \<Rightarrow> side_t" where
  "opposite LEFT = RIGHT"
| "opposite RIGHT = LEFT"

text \<open>
  What an operation can do besides returning: the exception of \<^verbatim>\<open>validate\<close>
  (\<^verbatim>\<open>std::runtime_error\<close> with its message), and the undefined behaviour the source does not
  guard against: the
  dereference of a null \<^verbatim>\<open>shared_ptr\<close> (tagged with the name of the pointer variable), a
  \<^verbatim>\<open>push\<close> on a full path array and a \<^verbatim>\<open>pop\<close> on an empty one. \<open>Invalid_pointer\<close> is
  for the model of the store further down: an address at which the store holds no node,
  which no \<^verbatim>\<open>shared_ptr\<close> of the source can be.
\<close>

datatype error =
    Runtime_error string
  | Null_deref string
  | Path_overflow
  | Path_underflow
  | Invalid_pointer

text \<open>
  A \<^verbatim>\<open>node\<close> object has a key/value pair, two children and a colour. A
  \<^verbatim>\<open>std::shared_ptr<const node>\<close> is a \<open>node option\<close>, \<open>None\<close> being \<^verbatim>\<open>nullptr\<close>. Nodes
  reachable from a map are never written to (every setter below is applied to a node that was
  just made by \<^verbatim>\<open>clone\<close> or \<^verbatim>\<open>make_shared\<close>), so a pointer is modelled by the value it
  points to, and \<^verbatim>\<open>clone\<close> is the identity on values.
\<close>

datatype ('k, 'v) node =
  Node (kvp_of: "'k \<times> 'v") (left_child: "('k, 'v) node option")
       (right_child: "('k, 'v) node option") (color_of: color_t)

abbreviation (input) clone :: "('k, 'v) node \<Rightarrow> ('k, 'v) node" where
  "clone n \<equiv> n"

definition get_key :: "('k, 'v) node \<Rightarrow> 'k" where
  "get_key n = fst (kvp_of n)"

definition get_pair :: "('k, 'v) node \<Rightarrow> 'k \<times> 'v" where
  "get_pair n = kvp_of n"

fun get_child :: "side_t \<Rightarrow> ('k, 'v) node \<Rightarrow> ('k, 'v) node option" where
  "get_child LEFT n = left_child n"
| "get_child RIGHT n = right_child n"

definition get_color :: "('k, 'v) node \<Rightarrow> color_t" where
  "get_color n = color_of n"

definition is_red :: "('k, 'v) node \<Rightarrow> bool" where
  "is_red n = (color_of n = RED)"

definition is_black :: "('k, 'v) node \<Rightarrow> bool" where
  "is_black n = (color_of n = BLACK)"

text \<open>The guarded test \<^verbatim>\<open>x && x->is_red()\<close> on a pointer.\<close>

fun red_ptr :: "('k, 'v) node option \<Rightarrow> bool" where
  "red_ptr None = False"
| "red_ptr (Some n) = is_red n"

definition has_red_child :: "('k, 'v) node \<Rightarrow> bool" where
  "has_red_child n = (red_ptr (left_child n) \<or> red_ptr (right_child n))"

fun set_pair :: "'k \<times> 'v \<Rightarrow> ('k, 'v) node \<Rightarrow> ('k, 'v) node" where
  "set_pair kvp (Node _ l r c) = Node kvp l r c"

fun set_child :: "side_t \<Rightarrow> ('k, 'v) node option \<Rightarrow> ('k, 'v) node \<Rightarrow> ('k, 'v) node" where
  "set_child LEFT child (Node kvp l r c) = Node kvp child r c"
| "set_child RIGHT child (Node kvp l r c) = Node kvp l child c"

fun set_color :: "color_t \<Rightarrow> ('k, 'v) node \<Rightarrow> ('k, 'v) node" where
  "set_color color (Node kvp l r c) = Node kvp l r color"

text \<open>
  \<^verbatim>\<open>node::foreach\<close> calls the visitor on the left subtree, the node's pair, the right
  subtree. The model returns the sequence of pairs the visitor is called with.
\<close>

fun foreach_ptr :: "('k, 'v) node option \<Rightarrow> ('k \<times> 'v) list" where
  "foreach_ptr None = []"
| "foreach_ptr (Some (Node kvp l r c)) = foreach_ptr l @ kvp # foreach_ptr r"

text \<open>
  \<^verbatim>\<open>node::validate\<close> returns the black depth of the node or throws. The guards
  \<^verbatim>\<open>if (get_child(LEFT))\<close> are the case distinctions on the children.
\<close>

fun validate_ptr :: "('k, 'v) node option \<Rightarrow> error + int" where
  "validate_ptr None = Inr 0"
| "validate_ptr (Some (Node kvp l r c)) =
     (if c = RED \<and> red_ptr l then Inl (Runtime_error ''red node with red child'')
      else if c = RED \<and> red_ptr r then Inl (Runtime_error ''red node with red child'')
      else case validate_ptr l of
        Inl e \<Rightarrow> Inl e
      | Inr depth1 \<Rightarrow>
          (case validate_ptr r of
             Inl e \<Rightarrow> Inl e
           | Inr depth2 \<Rightarrow>
               if depth1 \<noteq> depth2 then Inl (Runtime_error ''invalid black depth'')
               else Inr (depth1 + (if c = RED then 0 else 1))))"

subsection \<open>The path\<close>

text \<open>
  \<^verbatim>\<open>class path\<close> is a stack in a \<^verbatim>\<open>std::array\<close> of \<^verbatim>\<open>sizeof(size_t) * 16\<close> pointers with
  a counter \<^verbatim>\<open>size_\<close>. The model keeps the used part of the array as a list whose head is
  \<^verbatim>\<open>path_[size_ - 1]\<close>; \<^verbatim>\<open>size_\<close> is its length. Only non-null nodes are ever pushed.
  \<^verbatim>\<open>size_t\<close> is taken to be 8 bytes wide.
\<close>

type_synonym ('k, 'v) path = "('k, 'v) node list"

definition sizeof_size_t :: nat where
  "sizeof_size_t = 8"

definition path_capacity :: nat where
  "path_capacity = sizeof_size_t * 16"

definition get_node :: "('k, 'v) path \<Rightarrow> ('k, 'v) node option" where
  "get_node p = (case p of [] \<Rightarrow> None | n # _ \<Rightarrow> Some n)"

definition get_parent :: "('k, 'v) path \<Rightarrow> ('k, 'v) node option" where
  "get_parent p = (case p of _ # n # _ \<Rightarrow> Some n | _ \<Rightarrow> None)"

definition push :: "('k, 'v) node \<Rightarrow> ('k, 'v) path \<Rightarrow> error + ('k, 'v) path" where
  "push n p = (if length p < path_capacity then Inr (n # p) else Inl Path_overflow)"

definition pop :: "('k, 'v) path \<Rightarrow> error + ('k, 'v) path" where
  "pop p = (case p of [] \<Rightarrow> Inl Path_underflow | _ # p' \<Rightarrow> Inr p')"

subsection \<open>The map\<close>

record ('k, 'v) immutable_map =
  m_root :: "('k, 'v) node option"
  m_size :: "64 word"

definition empty_map :: "('k, 'v) immutable_map" where
  "empty_map = \<lparr> m_root = None, m_size = 0 \<rparr>"

definition empty_m :: "('k, 'v) immutable_map \<Rightarrow> bool" where
  "empty_m m = (m_size m = 0)"

definition size_m :: "('k, 'v) immutable_map \<Rightarrow> 64 word" where
  "size_m m = m_size m"

definition foreach :: "('k, 'v) immutable_map \<Rightarrow> ('k \<times> 'v) list" where
  "foreach m = foreach_ptr (m_root m)"

definition validate :: "('k, 'v) immutable_map \<Rightarrow> error + unit" where
  "validate m =
     (if red_ptr (m_root m) then Inl (Runtime_error ''root is red'')
      else case validate_ptr (m_root m) of Inl e \<Rightarrow> Inl e | Inr _ \<Rightarrow> Inr ())"

section \<open>The tree engine\<close>

subsection \<open>Path capture\<close>

text \<open>
  The static \<^verbatim>\<open>find(root, p, key)\<close>: the loop pushes the current node, stops on an equal
  key and otherwise descends to the left when the node's key is greater than the searched
  one. The path is passed by reference in the source; here the callee returns it.
\<close>

fun find_path ::
  "('k::linorder, 'v) node option \<Rightarrow> ('k, 'v) path \<Rightarrow> 'k \<Rightarrow> error + (('k, 'v) path \<times> bool)"
where
  "find_path None p key = Inr (p, False)"
| "find_path (Some (Node kvp l r c)) p key =
     (case push (Node kvp l r c) p of
        Inl e \<Rightarrow> Inl e
      | Inr p' \<Rightarrow>
          if fst kvp = key then Inr (p', True)
          else if fst kvp > key then find_path l p' key
          else find_path r p' key)"

text \<open>\<^verbatim>\<open>find_predecessor\<close>: the left child of the path's last node, then right children.\<close>

fun right_descent ::
  "('k, 'v) node option \<Rightarrow> ('k, 'v) path \<Rightarrow> error + ('k, 'v) path"
where
  "right_descent None p = Inr p"
| "right_descent (Some (Node kvp l r c)) p =
     (case push (Node kvp l r c) p of
        Inl e \<Rightarrow> Inl e
      | Inr p' \<Rightarrow> right_descent r p')"

definition find_predecessor :: "('k, 'v) path \<Rightarrow> error + ('k, 'v) path" where
  "find_predecessor p =
     (case p of
        [] \<Rightarrow> Inl (Null_deref ''p.get_node()'')
      | n # _ \<Rightarrow> right_descent (get_child LEFT n) p)"

subsection \<open>Clone-path reconstruction\<close>

text \<open>
  \<^verbatim>\<open>clone_path(p, n)\<close>: clone every node of the path from the last to the first, hanging
  the node built so far to the left when the ancestor's key is greater. The path is empty
  afterwards.
\<close>

fun clone_path :: "('k::linorder, 'v) path \<Rightarrow> ('k, 'v) node \<Rightarrow> ('k, 'v) node" where
  "clone_path [] n = n"
| "clone_path (parent # p) n =
     clone_path p
       (if get_key (clone parent) > get_key n then set_child LEFT (Some n) (clone parent)
        else set_child RIGHT (Some n) (clone parent))"

text \<open>\<^verbatim>\<open>clone_path(p, n, depth)\<close>: the same, while the path is longer than \<^verbatim>\<open>depth\<close>.\<close>

fun clone_path_depth ::
  "('k::linorder, 'v) path \<Rightarrow> ('k, 'v) node \<Rightarrow> nat \<Rightarrow> ('k, 'v) node \<times> ('k, 'v) path"
where
  "clone_path_depth [] n depth = (n, [])"
| "clone_path_depth (parent # p) n depth =
     (if length (parent # p) > depth then
        clone_path_depth p
          (if get_key (clone parent) > get_key n then set_child LEFT (Some n) (clone parent)
           else set_child RIGHT (Some n) (clone parent))
          depth
      else (n, parent # p))"

text \<open>
  \<^verbatim>\<open>clone_path(p, n, side, depth)\<close>: \<^verbatim>\<open>n\<close> may be null and is hung on the given side; the
  side for the next level compares the grand parent's key with the parent's, and reads the
  grand parent without a null check.
\<close>

fun clone_path_side ::
  "('k::linorder, 'v) path \<Rightarrow> ('k, 'v) node option \<Rightarrow> side_t \<Rightarrow> nat
     \<Rightarrow> error + (('k, 'v) node option \<times> ('k, 'v) path)"
where
  "clone_path_side [] n side depth = Inr (n, [])"
| "clone_path_side [parent] n side depth =
     (if length [parent] > depth then Inl (Null_deref ''grand_parent'')
      else Inr (n, [parent]))"
| "clone_path_side (parent # grand_parent # p) n side depth =
     (if length (parent # grand_parent # p) > depth then
        clone_path_side (grand_parent # p) (Some (set_child side n (clone parent)))
          (if get_key grand_parent > get_key parent then LEFT else RIGHT) depth
      else Inr (n, parent # grand_parent # p))"

subsection \<open>Insertion\<close>

text \<open>
  \<^verbatim>\<open>insert_fix(p, n)\<close>. \<^verbatim>\<open>p.get_node()\<close> is the head of the list, \<^verbatim>\<open>p.get_parent()\<close> its
  second element, and \<^verbatim>\<open>p.pop(); p.pop()\<close> leaves the list after these two. The grand parent
  is read without a null check.
\<close>

fun insert_fix :: "('k::linorder, 'v) path \<Rightarrow> ('k, 'v) node \<Rightarrow> error + ('k, 'v) node" where
  "insert_fix [] n = Inr (set_color BLACK n)"
| "insert_fix [parent] n =
     (if is_black parent then Inr (clone_path [parent] n)
      else Inl (Null_deref ''grand_parent''))"
| "insert_fix (parent # grand_parent # p) n =
     (if is_black parent then Inr (clone_path (parent # grand_parent # p) n)
      else
        let parent_side = (if get_key grand_parent > get_key parent then LEFT else RIGHT);
            node_side = (if get_key parent > get_key n then LEFT else RIGHT);
            uncle = get_child (opposite parent_side) grand_parent
        in
          (case (if red_ptr uncle then uncle else None) of
            Some uncle_node \<Rightarrow>
              let new_parent = set_child node_side (Some n) (set_color BLACK (clone parent));
                  new_uncle = set_color BLACK (clone uncle_node);
                  new_grand_parent =
                    set_child (opposite parent_side) (Some new_uncle)
                      (set_child parent_side (Some new_parent)
                        (set_color RED (clone grand_parent)))
              in insert_fix p new_grand_parent
          | None \<Rightarrow>
              if parent_side \<noteq> node_side then
                let new_parent = set_child node_side (get_child parent_side n) (clone parent);
                    new_grand_parent =
                      set_color RED
                        (set_child parent_side (get_child node_side n) (clone grand_parent));
                    n' = set_color BLACK
                           (set_child node_side (Some new_grand_parent)
                             (set_child parent_side (Some new_parent) n))
                in Inr (clone_path p n')
              else
                let new_grand_parent =
                      set_color RED
                        (set_child parent_side (get_child (opposite parent_side) parent)
                          (clone grand_parent));
                    new_parent =
                      set_color BLACK
                        (set_child parent_side (Some n)
                          (set_child (opposite parent_side) (Some new_grand_parent)
                            (clone parent)))
                in Inr (clone_path p new_parent)))"

subsection \<open>Deletion fixup\<close>

text \<open>
  The two tests read the sibling (\<^verbatim>\<open>parent->get_child(1 - side)\<close>) without a null check.
\<close>

definition has_black_sibling_with_red_child ::
  "('k, 'v) node \<Rightarrow> side_t \<Rightarrow> error + bool"
where
  "has_black_sibling_with_red_child parent side =
     (case get_child (opposite side) parent of
        None \<Rightarrow> Inl (Null_deref ''sibling'')
      | Some sibling \<Rightarrow> Inr (if is_red sibling then False else has_red_child sibling))"

definition has_black_sibling_with_black_children ::
  "('k, 'v) node \<Rightarrow> side_t \<Rightarrow> error + bool"
where
  "has_black_sibling_with_black_children parent side =
     (case get_child (opposite side) parent of
        None \<Rightarrow> Inl (Null_deref ''sibling'')
      | Some sibling \<Rightarrow> Inr (if is_red sibling then False else \<not> has_red_child sibling))"

text \<open>
  \<^verbatim>\<open>delete_fixup_1\<close>: the sibling is black and has a red child. The source links the new
  nodes first and sets their fields afterwards; a linked node is the object itself, so the
  model builds \<^verbatim>\<open>new_parent\<close> and \<^verbatim>\<open>new_sibling\<close> completely before it links them.
\<close>

definition delete_fixup_1 :: "('k, 'v) node \<Rightarrow> side_t \<Rightarrow> error + ('k, 'v) node" where
  "delete_fixup_1 parent side =
     (let parent_color = get_color parent in
      case get_child (opposite side) parent of
        None \<Rightarrow> Inl (Null_deref ''sibling'')
      | Some sibling \<Rightarrow>
          let child_1 = get_child side sibling in
          (case (if red_ptr child_1 then child_1 else None) of
            Some child_1_node \<Rightarrow>
              let new_parent =
                    set_child (opposite side) (get_child side child_1_node)
                      (set_color BLACK (clone parent));
                  new_sibling =
                    set_child side (get_child (opposite side) child_1_node) (clone sibling);
                  new_child_1 =
                    set_child (opposite side) (Some new_sibling)
                      (set_child side (Some new_parent)
                        (set_color parent_color (clone child_1_node)))
              in Inr new_child_1
          | None \<Rightarrow>
              (case get_child (opposite side) sibling of
                 None \<Rightarrow> Inl (Null_deref ''child_2'')
               | Some child_2 \<Rightarrow>
                   let new_child_2 = set_color BLACK (clone child_2);
                       new_parent =
                         set_child (opposite side) (get_child side sibling)
                           (set_color BLACK (clone parent));
                       new_sibling =
                         set_child (opposite side) (Some new_child_2)
                           (set_child side (Some new_parent)
                             (set_color parent_color (clone sibling)))
                   in Inr new_sibling)))"

text \<open>\<^verbatim>\<open>delete_fixup_2\<close> (recolouring).\<close>

definition delete_fixup_2 :: "('k, 'v) node \<Rightarrow> side_t \<Rightarrow> error + ('k, 'v) node" where
  "delete_fixup_2 parent side =
     (case get_child (opposite side) parent of
        None \<Rightarrow> Inl (Null_deref ''sibling'')
      | Some sibling \<Rightarrow>
          let new_sibling = set_color RED (clone sibling);
              new_parent =
                set_child (opposite side) (Some new_sibling) (set_color BLACK (clone parent))
          in Inr new_parent)"

text \<open>
  \<^verbatim>\<open>delete_fixup_3\<close> (adjustment): the red sibling goes up, and the two tests are made
  again on the new parent, whose sibling is the former sibling's child.
\<close>

definition delete_fixup_3 :: "('k, 'v) node \<Rightarrow> side_t \<Rightarrow> error + ('k, 'v) node" where
  "delete_fixup_3 parent side =
     (case get_child (opposite side) parent of
        None \<Rightarrow> Inl (Null_deref ''sibling'')
      | Some sibling \<Rightarrow>
          let new_parent =
                set_child (opposite side) (get_child side sibling)
                  (set_color RED (clone parent));
              new_sibling =
                set_child side (Some new_parent)
                  (set_color (get_color parent) (clone sibling))
          in
            (case has_black_sibling_with_red_child new_parent side of
              Inl e \<Rightarrow> Inl e
            | Inr True \<Rightarrow>
                (case delete_fixup_1 new_parent side of
                   Inl e \<Rightarrow> Inl e
                 | Inr new_parent' \<Rightarrow> Inr (set_child side (Some new_parent') new_sibling))
            | Inr False \<Rightarrow>
                (case has_black_sibling_with_black_children new_parent side of
                   Inl e \<Rightarrow> Inl e
                 | Inr True \<Rightarrow>
                     (case delete_fixup_2 new_parent side of
                        Inl e \<Rightarrow> Inl e
                      | Inr new_parent' \<Rightarrow> Inr (set_child side (Some new_parent') new_sibling))
                 | Inr False \<Rightarrow> Inr new_sibling)))"

text \<open>
  \<^verbatim>\<open>delete_fixup(p, parent, side)\<close>: \<^verbatim>\<open>parent\<close> is one black node short on \<^verbatim>\<open>side\<close>.
  The recursion goes one level up, to the last node of the path.
\<close>

fun delete_fixup ::
  "('k::linorder, 'v) path \<Rightarrow> ('k, 'v) node \<Rightarrow> side_t \<Rightarrow> error + ('k, 'v) node"
where
  "delete_fixup p parent side =
     (case has_black_sibling_with_red_child parent side of
        Inl e \<Rightarrow> Inl e
      | Inr True \<Rightarrow>
          (case delete_fixup_1 parent side of
             Inl e \<Rightarrow> Inl e
           | Inr new_parent \<Rightarrow> Inr (clone_path p new_parent))
      | Inr False \<Rightarrow>
          (case has_black_sibling_with_black_children parent side of
             Inl e \<Rightarrow> Inl e
           | Inr True \<Rightarrow>
               (let parent_color = get_color parent in
                case delete_fixup_2 parent side of
                  Inl e \<Rightarrow> Inl e
                | Inr new_parent \<Rightarrow>
                    (case p of
                       grand_parent # p' \<Rightarrow>
                         if parent_color = BLACK \<and> length p > 0 then
                           let parent_side =
                                 (if get_key grand_parent > get_key parent then LEFT else RIGHT);
                               new_grand_parent =
                                 set_child parent_side (Some new_parent) (clone grand_parent)
                           in delete_fixup p' new_grand_parent parent_side
                         else Inr (clone_path p new_parent)
                     | [] \<Rightarrow> Inr (clone_path p new_parent)))
           | Inr False \<Rightarrow>
               (case delete_fixup_3 parent side of
                  Inl e \<Rightarrow> Inl e
                | Inr new_parent \<Rightarrow> Inr (clone_path p new_parent))))"

subsection \<open>Deletion\<close>

text \<open>
  \<^verbatim>\<open>erase_intermediate_node(p)\<close>: the erased node has two children. The first
  \<^verbatim>\<open>p.pop()\<close> of each branch removes the predecessor, which \<^verbatim>\<open>p.get_node()\<close> has just
  returned; the later ones go through \<open>pop\<close>. \<^verbatim>\<open>predecessor_depth - depth\<close> is a difference
  of \<^verbatim>\<open>size_t\<close> values, the first never smaller than the second.
\<close>

definition erase_intermediate_node ::
  "('k::linorder, 'v) path \<Rightarrow> error + ('k, 'v) node"
where
  "erase_intermediate_node p =
     (case p of
        [] \<Rightarrow> Inl (Null_deref ''erased_node'')
      | erased_node # _ \<Rightarrow>
          let node_color = get_color erased_node;
              depth = length p
          in
          (case find_predecessor p of
            Inl e \<Rightarrow> Inl e
          | Inr p1 \<Rightarrow>
              (case p1 of
                 [] \<Rightarrow> Inl (Null_deref ''predecessor'')
               | predecessor # p2 \<Rightarrow>
                   let predecessor_depth = length p1;
                       predecessor_side =
                         (if predecessor_depth - depth > 1 then RIGHT else LEFT);
                       predecessor_color = get_color predecessor;
                       new_node = set_color node_color (clone predecessor)
                   in
                   if predecessor_color = RED then
                     (case clone_path_side p2 None predecessor_side depth of
                        Inl e \<Rightarrow> Inl e
                      | Inr (sub_tree, p3) \<Rightarrow>
                          let new_node' =
                                set_child RIGHT (get_child RIGHT erased_node)
                                  (set_child LEFT sub_tree new_node)
                          in
                          (case pop p3 of
                             Inl e \<Rightarrow> Inl e
                           | Inr p4 \<Rightarrow> Inr (clone_path p4 new_node')))
                   else
                     (case get_child LEFT predecessor of
                        Some left_node \<Rightarrow>
                          let new_child = set_color BLACK (clone left_node);
                              (sub_tree, p3) = clone_path_depth p2 new_child depth;
                              new_node' =
                                set_child RIGHT (get_child RIGHT erased_node)
                                  (set_child LEFT (Some sub_tree) new_node)
                          in
                          (case pop p3 of
                             Inl e \<Rightarrow> Inl e
                           | Inr p4 \<Rightarrow> Inr (clone_path p4 new_node'))
                      | None \<Rightarrow>
                          (case (if predecessor_side = LEFT then Inr (get_pair predecessor)
                                 else (case p2 of
                                         [] \<Rightarrow> Inl (Null_deref ''p.get_node()'')
                                       | n # _ \<Rightarrow> Inr (get_pair n))) of
                             Inl e \<Rightarrow> Inl e
                           | Inr kvp \<Rightarrow>
                               (case clone_path_side p2 None predecessor_side depth of
                                  Inl e \<Rightarrow> Inl e
                                | Inr (sub_tree, p3) \<Rightarrow>
                                    let new_node' =
                                          set_child RIGHT (get_child RIGHT erased_node)
                                            (set_child LEFT sub_tree new_node)
                                    in
                                    (case pop p3 of
                                       Inl e \<Rightarrow> Inl e
                                     | Inr p4 \<Rightarrow>
                                         let temp_root = clone_path p4 new_node' in
                                         (case find_path (Some temp_root) [] (fst kvp) of
                                            Inl e \<Rightarrow> Inl e
                                          | Inr (p5, _) \<Rightarrow>
                                              (case p5 of
                                                 [] \<Rightarrow> Inl (Null_deref ''new_parent'')
                                               | new_parent # p6 \<Rightarrow>
                                                   delete_fixup p6 new_parent
                                                     predecessor_side)))))))))"

text \<open>
  \<^verbatim>\<open>erase_imp(p)\<close>: the last node of the path is the node to erase. The result is the new
  root pointer, null when the last node of the tree goes.
\<close>

definition erase_imp :: "('k::linorder, 'v) path \<Rightarrow> error + ('k, 'v) node option" where
  "erase_imp p =
     (case p of
        [] \<Rightarrow> Inl (Null_deref ''n'')
      | n # p1 \<Rightarrow>
          let has_left_child = (get_child LEFT n \<noteq> None);
              has_right_child = (get_child RIGHT n \<noteq> None)
          in
          if has_left_child \<and> has_right_child then
            (case erase_intermediate_node p of Inl e \<Rightarrow> Inl e | Inr r \<Rightarrow> Inr (Some r))
          else
            (case get_child LEFT n of
               Some left_node \<Rightarrow>
                 Inr (Some (clone_path p1 (set_color BLACK (clone left_node))))
             | None \<Rightarrow>
                 (case get_child RIGHT n of
                    Some right_node \<Rightarrow>
                      Inr (Some (clone_path p1 (set_color BLACK (clone right_node))))
                  | None \<Rightarrow>
                      if is_red n then
                        (case p1 of
                           [] \<Rightarrow> Inl (Null_deref ''p.get_parent()'')
                         | parent # p2 \<Rightarrow>
                             let parent_side =
                                   (if get_key parent > get_key n then LEFT else RIGHT);
                                 new_parent = set_child parent_side None (clone parent)
                             in Inr (Some (clone_path p2 new_parent)))
                      else if length p = 1 then Inr None
                      else
                        (case p1 of
                           [] \<Rightarrow> Inl (Null_deref ''p.get_parent()'')
                         | parent # p2 \<Rightarrow>
                             let parent_side =
                                   (if get_key parent > get_key n then LEFT else RIGHT);
                                 new_parent = set_child parent_side None (clone parent)
                             in
                             (case delete_fixup p2 new_parent parent_side of
                                Inl e \<Rightarrow> Inl e
                              | Inr r \<Rightarrow> Inr (Some r))))))"

section \<open>The public operations\<close>

text \<open>
  \<^verbatim>\<open>insert_imp(kvp, p)\<close> and \<^verbatim>\<open>insert_imp(kvp)\<close>. \<^verbatim>\<open>insert(pair&&)\<close> hands its pair to the
  latter, and is the overload that a call with a temporary or a braced pair selects.
  \<^verbatim>\<open>insert(const pair&)\<close> is written with a call \<^verbatim>\<open>insert(ptr)\<close> on a \<^verbatim>\<open>shared_ptr\<close>, for which the
  class has no overload; as a member of a class template it is compiled only where it is called,
  and it is taken here to insert the pair like the other overload.
\<close>

definition insert_imp_p ::
  "('k::linorder, 'v) node option \<Rightarrow> 'k \<times> 'v \<Rightarrow> ('k, 'v) path \<Rightarrow> error + ('k, 'v) node"
where
  "insert_imp_p root_ptr kvp p =
     (if root_ptr = None then Inr (Node kvp None None BLACK)
      else insert_fix p (Node kvp None None RED))"

definition insert_imp ::
  "('k::linorder, 'v) immutable_map \<Rightarrow> 'k \<times> 'v \<Rightarrow> error + ('k, 'v) immutable_map"
where
  "insert_imp m kvp =
     (case find_path (m_root m) [] (fst kvp) of
        Inl e \<Rightarrow> Inl e
      | Inr (p, match) \<Rightarrow>
          if match then
            (case p of
               [] \<Rightarrow> Inl (Null_deref ''p.get_node()'')
             | n # p1 \<Rightarrow>
                 Inr \<lparr> m_root = Some (clone_path p1 (set_pair kvp (clone n))),
                       m_size = m_size m \<rparr>)
          else
            (case insert_imp_p (m_root m) kvp p of
               Inl e \<Rightarrow> Inl e
             | Inr new_root \<Rightarrow> Inr \<lparr> m_root = Some new_root, m_size = m_size m + 1 \<rparr>))"

definition insert_m ::
  "('k::linorder, 'v) immutable_map \<Rightarrow> 'k \<times> 'v \<Rightarrow> error + ('k, 'v) immutable_map"
where
  "insert_m m kvp = insert_imp m kvp"

definition erase ::
  "('k::linorder, 'v) immutable_map \<Rightarrow> 'k \<Rightarrow> error + ('k, 'v) immutable_map"
where
  "erase m key =
     (case find_path (m_root m) [] key of
        Inl e \<Rightarrow> Inl e
      | Inr (p, match) \<Rightarrow>
          if \<not> match then Inr m
          else
            (case erase_imp p of
               Inl e \<Rightarrow> Inl e
             | Inr new_root \<Rightarrow> Inr \<lparr> m_root = new_root, m_size = m_size m - 1 \<rparr>))"

text \<open>
  \<^verbatim>\<open>contains\<close> is the result of \<^verbatim>\<open>find\<close>.

  The two \<^verbatim>\<open>at\<close> overloads have no definition here. Their bodies apply \<^verbatim>\<open>->\<close> to the \<^verbatim>\<open>path\<close>
  object \<^verbatim>\<open>p\<close>, which has no such operator, and construct \<^verbatim>\<open>std::out_of_range\<close> without the
  argument its constructors need; the one that is not \<^verbatim>\<open>const\<close> also returns a \<^verbatim>\<open>T&\<close> to the
  second component of a \<^verbatim>\<open>const\<close> pair. As members of a class template they are compiled only
  where they are called, and no call of either compiles, so that they have no behaviour to
  embed. What they were to read is reached through \<^verbatim>\<open>find\<close>: the pair of the last node of the path
  when \<^verbatim>\<open>find\<close> reports a match.
\<close>

definition contains :: "('k::linorder, 'v) immutable_map \<Rightarrow> 'k \<Rightarrow> error + bool" where
  "contains m key =
     (case find_path (m_root m) [] key of
        Inl e \<Rightarrow> Inl e
      | Inr (p, match) \<Rightarrow> Inr match)"

section \<open>The red-black invariants\<close>

text \<open>
  The invariants of the data model, on a pointer to a subtree: the keys of the in-order
  traversal ascend strictly (binary-search-tree ordering), no red node has a red child, and
  every downward path to an absent child crosses the same number of black nodes.
\<close>

definition bst :: "('k::linorder, 'v) node option \<Rightarrow> bool" where
  "bst t = sorted_wrt (<) (map fst (foreach_ptr t))"

fun bheight :: "('k, 'v) node option \<Rightarrow> nat" where
  "bheight None = 0"
| "bheight (Some (Node kvp l r c)) = bheight l + (if c = BLACK then 1 else 0)"

fun invh :: "('k, 'v) node option \<Rightarrow> bool" where
  "invh None = True"
| "invh (Some (Node kvp l r c)) = (invh l \<and> invh r \<and> bheight l = bheight r)"

fun invc :: "('k, 'v) node option \<Rightarrow> bool" where
  "invc None = True"
| "invc (Some (Node kvp l r c)) =
     (invc l \<and> invc r \<and> (c = BLACK \<or> (\<not> red_ptr l \<and> \<not> red_ptr r)))"

definition rbt :: "('k::linorder, 'v) node option \<Rightarrow> bool" where
  "rbt t = (bst t \<and> invc t \<and> invh t \<and> \<not> red_ptr t)"

text \<open>
  What a public operation can rely on: the tree is a red-black tree and the counter is the
  number of its nodes.
\<close>

definition map_inv :: "('k::linorder, 'v) immutable_map \<Rightarrow> bool" where
  "map_inv m = (rbt (m_root m) \<and> unat (m_size m) = length (foreach m))"

section \<open>Paths as contexts\<close>

text \<open>
  Notions for the proofs. A path is read as a list of frames, innermost first: a frame is a
  node of the path without the child the path goes through. \<open>plug\<close> puts a subtree into
  the hole of a list of frames; \<open>pre\<close> and \<open>post\<close> are the pairs that the traversal of the
  plugged tree visits before and after those of the subtree. \<open>frames_for\<close> takes the sides
  as \<^verbatim>\<open>clone_path\<close> computes them (each ancestor's key against the key of the node below
  it), \<open>kframes\<close> as a search for the key \<open>k\<close> does. \<open>trail\<close> is the list of nodes that a
  search pushes, \<open>sub\<close> the node it stops at, \<open>anc\<close> the nodes above that one.
\<close>

definition keys :: "('k, 'v) node option \<Rightarrow> 'k set" where
  "keys t = fst ` set (foreach_ptr t)"

fun height :: "('k, 'v) node option \<Rightarrow> nat" where
  "height None = 0"
| "height (Some (Node kvp l r c)) = Suc (max (height l) (height r))"

datatype ('k, 'v) frame =
  Frame (fside: side_t) (fkvp: "'k \<times> 'v") (fcolor: color_t) (fsibling: "('k, 'v) node option")

fun fill :: "('k, 'v) frame \<Rightarrow> ('k, 'v) node option \<Rightarrow> ('k, 'v) node" where
  "fill (Frame LEFT kvp c sib) s = Node kvp s sib c"
| "fill (Frame RIGHT kvp c sib) s = Node kvp sib s c"

fun plug :: "('k, 'v) frame list \<Rightarrow> ('k, 'v) node option \<Rightarrow> ('k, 'v) node option" where
  "plug [] s = s"
| "plug (f # fs) s = plug fs (Some (fill f s))"

definition frame_of :: "side_t \<Rightarrow> ('k, 'v) node \<Rightarrow> ('k, 'v) frame" where
  "frame_of sd n = Frame sd (kvp_of n) (color_of n) (get_child (opposite sd) n)"

definition dirk :: "'k::linorder \<Rightarrow> ('k, 'v) node \<Rightarrow> side_t" where
  "dirk k a = (if get_key a > k then LEFT else RIGHT)"

fun frames_for :: "'k::linorder \<Rightarrow> ('k, 'v) node list \<Rightarrow> ('k, 'v) frame list" where
  "frames_for k [] = []"
| "frames_for k (a # p) = frame_of (dirk k a) a # frames_for (get_key a) p"

definition kframes :: "'k::linorder \<Rightarrow> ('k, 'v) node list \<Rightarrow> ('k, 'v) frame list" where
  "kframes k p = map (\<lambda>a. frame_of (dirk k a) a) p"

fun pre :: "('k, 'v) frame list \<Rightarrow> ('k \<times> 'v) list" where
  "pre [] = []"
| "pre (Frame LEFT kvp c sib # fs) = pre fs"
| "pre (Frame RIGHT kvp c sib # fs) = pre fs @ foreach_ptr sib @ [kvp]"

fun post :: "('k, 'v) frame list \<Rightarrow> ('k \<times> 'v) list" where
  "post [] = []"
| "post (Frame LEFT kvp c sib # fs) = kvp # foreach_ptr sib @ post fs"
| "post (Frame RIGHT kvp c sib # fs) = post fs"

fun trail :: "'k::linorder \<Rightarrow> ('k, 'v) node option \<Rightarrow> ('k, 'v) node list" where
  "trail k None = []"
| "trail k (Some (Node kvp l r c)) =
     (if fst kvp = k then [] else if fst kvp > k then trail k l else trail k r) @ [Node kvp l r c]"

fun sub :: "'k::linorder \<Rightarrow> ('k, 'v) node option \<Rightarrow> ('k, 'v) node option" where
  "sub k None = None"
| "sub k (Some (Node kvp l r c)) =
     (if fst kvp = k then Some (Node kvp l r c) else if fst kvp > k then sub k l else sub k r)"

fun anc :: "'k::linorder \<Rightarrow> ('k, 'v) node option \<Rightarrow> ('k, 'v) node list" where
  "anc k None = []"
| "anc k (Some (Node kvp l r c)) =
     (if fst kvp = k then [] else (if fst kvp > k then anc k l else anc k r) @ [Node kvp l r c])"

text \<open>
  \<open>rspine\<close> is the list of nodes that \<^verbatim>\<open>find_predecessor\<close> pushes for a left subtree, and
  \<open>nodes_of\<close> the nodes that plugging a subtree into a list of frames builds, innermost
  first.
\<close>

fun rspine :: "('k, 'v) node option \<Rightarrow> ('k, 'v) node list" where
  "rspine None = []"
| "rspine (Some (Node kvp l r c)) = rspine r @ [Node kvp l r c]"

fun nodes_of :: "('k, 'v) frame list \<Rightarrow> ('k, 'v) node option \<Rightarrow> ('k, 'v) node list" where
  "nodes_of [] s = []"
| "nodes_of (f # fs) s = fill f s # nodes_of fs (Some (fill f s))"

text \<open>
  The situation of \<^verbatim>\<open>delete_fixup(p, parent, side)\<close>: both subtrees of \<^verbatim>\<open>parent\<close> are
  well formed and the one on \<^verbatim>\<open>side\<close> is one black node short. \<open>restored\<close> says that a
  node built from such a parent has the black height the parent had before the erasure,
  the same traversal, and is black when the parent was.
\<close>

definition deficit :: "('k, 'v) node \<Rightarrow> side_t \<Rightarrow> bool" where
  "deficit parent side =
     (invh (get_child side parent) \<and> invh (get_child (opposite side) parent) \<and>
      bheight (get_child (opposite side) parent) = bheight (get_child side parent) + 1 \<and>
      invc (get_child side parent) \<and> invc (get_child (opposite side) parent) \<and>
      \<not> red_ptr (get_child side parent) \<and>
      (is_black parent \<or> \<not> red_ptr (get_child (opposite side) parent)))"

definition restored :: "('k, 'v) node \<Rightarrow> side_t \<Rightarrow> ('k, 'v) node \<Rightarrow> bool" where
  "restored parent side rt =
     (invc (Some rt) \<and> invh (Some rt) \<and>
      bheight (Some rt) = bheight (get_child (opposite side) parent) + (if is_black parent then 1 else 0) \<and>
      (is_black parent \<longrightarrow> is_black rt) \<and>
      foreach_ptr (Some rt) = foreach_ptr (Some parent))"

section \<open>Sequences of operations\<close>

text \<open>
  A client of the map calls \<^verbatim>\<open>insert\<close> and \<^verbatim>\<open>erase\<close> one after the other, each on the
  map the call before returned. A call that fails ends the sequence.
\<close>

datatype ('k, 'v) operation = Insert 'k 'v | Erase 'k

fun apply_operation ::
  "('k::linorder, 'v) immutable_map \<Rightarrow> ('k, 'v) operation \<Rightarrow> error + ('k, 'v) immutable_map"
where
  "apply_operation m (Insert k v) = insert_m m (k, v)"
| "apply_operation m (Erase k) = erase m k"

fun run ::
  "('k::linorder, 'v) immutable_map \<Rightarrow> ('k, 'v) operation list \<Rightarrow> error + ('k, 'v) immutable_map"
where
  "run m [] = Inr m"
| "run m (x # xs) = (case apply_operation m x of Inl e \<Rightarrow> Inl e | Inr m' \<Rightarrow> run m' xs)"

section \<open>Example values\<close>

text \<open>A map that \<^verbatim>\<open>validate\<close> accepts although its keys are out of order.\<close>

definition unordered_map :: "(int, int) immutable_map" where
  "unordered_map =
     \<lparr>m_root = Some (Node (2, 0) (Some (Node (3, 0) None None RED)) None BLACK),
      m_size = 2\<rparr>"

text \<open>Two small maps and a sequence of operations.\<close>

definition example_map :: "(int, int) immutable_map" where
  "example_map = \<lparr>m_root = Some (Node (10, 1) None None BLACK), m_size = 1\<rparr>"

definition example_map3 :: "(int, int) immutable_map" where
  "example_map3 =
     \<lparr>m_root = Some (Node (2, 20) (Some (Node (1, 10) None None BLACK))
                 (Some (Node (3, 30) None None BLACK)) BLACK), m_size = 3\<rparr>"

definition example_ops :: "(int, int) operation list" where
  "example_ops = [Insert 3 30, Insert 1 10, Insert 2 20, Erase 3]"

section \<open>The same code over a store of nodes\<close>

text \<open>
  In the definitions above a tree is a value, so a map that has been built can never be seen to
  change. The C++ code works on nodes in memory that several maps share: \<^verbatim>\<open>clone\<close> allocates a new
  node, \<^verbatim>\<open>set_pair\<close>, \<^verbatim>\<open>set_child\<close> and \<^verbatim>\<open>set_color\<close> write to a node in place, and a child pointer
  that is copied makes the old and the new tree share the subtree below it. The definitions of
  this section follow the same source statement by statement and keep that memory explicit. The
  store is the list of all nodes allocated so far, a pointer is an index into it,
  \<^verbatim>\<open>std::make_shared\<close> appends a node, and every function takes the store and returns it with its
  result. A pointer that is outside the store (which \<^verbatim>\<open>shared_ptr\<close> rules out) gives
  \<open>Invalid_pointer\<close>.
\<close>

datatype ('k, 'v) hnode =
  HNode (h_kvp: "'k \<times> 'v") (h_left: "nat option") (h_right: "nat option") (h_color: color_t)

type_synonym ('k, 'v) store = "('k, 'v) hnode list"

type_synonym ('a, 'k, 'v) st = "('k, 'v) store \<Rightarrow> (error + 'a) \<times> ('k, 'v) store"

definition ret_st :: "'a \<Rightarrow> ('a, 'k, 'v) st" where
  "ret_st x = (\<lambda>s. (Inr x, s))"

definition fail_st :: "error \<Rightarrow> ('a, 'k, 'v) st" where
  "fail_st e = (\<lambda>s. (Inl e, s))"

definition bind_st :: "('a, 'k, 'v) st \<Rightarrow> ('a \<Rightarrow> ('b, 'k, 'v) st) \<Rightarrow> ('b, 'k, 'v) st" where
  "bind_st f g = (\<lambda>s. case f s of (Inl e, s') \<Rightarrow> (Inl e, s') | (Inr x, s') \<Rightarrow> g x s')"

definition make_shared ::
  "'k \<times> 'v \<Rightarrow> nat option \<Rightarrow> nat option \<Rightarrow> color_t \<Rightarrow> (nat, 'k, 'v) st"
where
  "make_shared kvp l r c = (\<lambda>s. (Inr (length s), s @ [HNode kvp l r c]))"

definition node_at :: "nat \<Rightarrow> (('k, 'v) hnode, 'k, 'v) st" where
  "node_at a = (\<lambda>s. if a < length s then (Inr (s ! a), s) else (Inl Invalid_pointer, s))"

definition update_st :: "nat \<Rightarrow> (('k, 'v) hnode \<Rightarrow> ('k, 'v) hnode) \<Rightarrow> (unit, 'k, 'v) st" where
  "update_st a f =
     (\<lambda>s. if a < length s then (Inr (), s[a := f (s ! a)]) else (Inl Invalid_pointer, s))"

definition deref :: "string \<Rightarrow> nat option \<Rightarrow> (nat, 'k, 'v) st" where
  "deref tag p = (case p of None \<Rightarrow> fail_st (Null_deref tag) | Some a \<Rightarrow> ret_st a)"

fun h_child :: "side_t \<Rightarrow> ('k, 'v) hnode \<Rightarrow> nat option" where
  "h_child LEFT c = h_left c"
| "h_child RIGHT c = h_right c"

definition clone_st :: "nat \<Rightarrow> (nat, 'k, 'v) st" where
  "clone_st a = bind_st (node_at a) (\<lambda>c. make_shared (h_kvp c) (h_left c) (h_right c) (h_color c))"

definition set_pair_st :: "nat \<Rightarrow> 'k \<times> 'v \<Rightarrow> (unit, 'k, 'v) st" where
  "set_pair_st a kvp = update_st a (\<lambda>c. HNode kvp (h_left c) (h_right c) (h_color c))"

definition set_child_st :: "nat \<Rightarrow> side_t \<Rightarrow> nat option \<Rightarrow> (unit, 'k, 'v) st" where
  "set_child_st a side child =
     update_st a (\<lambda>c. case side of
        LEFT \<Rightarrow> HNode (h_kvp c) child (h_right c) (h_color c)
      | RIGHT \<Rightarrow> HNode (h_kvp c) (h_left c) child (h_color c))"

definition set_color_st :: "nat \<Rightarrow> color_t \<Rightarrow> (unit, 'k, 'v) st" where
  "set_color_st a col = update_st a (\<lambda>c. HNode (h_kvp c) (h_left c) (h_right c) col)"

definition get_key_st :: "nat \<Rightarrow> ('k, 'k, 'v) st" where
  "get_key_st a = bind_st (node_at a) (\<lambda>c. ret_st (fst (h_kvp c)))"

definition get_child_st :: "nat \<Rightarrow> side_t \<Rightarrow> (nat option, 'k, 'v) st" where
  "get_child_st a side = bind_st (node_at a) (\<lambda>c. ret_st (h_child side c))"

definition get_color_st :: "nat \<Rightarrow> (color_t, 'k, 'v) st" where
  "get_color_st a = bind_st (node_at a) (\<lambda>c. ret_st (h_color c))"

definition red_ptr_st :: "nat option \<Rightarrow> (bool, 'k, 'v) st" where
  "red_ptr_st p =
     (case p of None \<Rightarrow> ret_st False
      | Some a \<Rightarrow> bind_st (get_color_st a) (\<lambda>c. ret_st (c = RED)))"

definition has_red_child_st :: "nat \<Rightarrow> (bool, 'k, 'v) st" where
  "has_red_child_st a =
     bind_st (node_at a) (\<lambda>c.
     bind_st (red_ptr_st (h_left c)) (\<lambda>l.
     if l then ret_st True else red_ptr_st (h_right c)))"

function find_path_on ::
  "('k::linorder, 'v) store \<Rightarrow> nat option \<Rightarrow> nat list \<Rightarrow> 'k \<Rightarrow> error + (nat list \<times> bool)"
where
  "find_path_on s None p key = Inr (p, False)"
| "find_path_on s (Some a) p key =
     (if length p < path_capacity then
        if a < length s then
          if fst (h_kvp (s ! a)) = key then Inr (a # p, True)
          else if fst (h_kvp (s ! a)) > key then find_path_on s (h_left (s ! a)) (a # p) key
          else find_path_on s (h_right (s ! a)) (a # p) key
        else Inl Invalid_pointer
      else Inl Path_overflow)"
  by pat_completeness auto
termination
  by (relation "measure (\<lambda>(s, root, p, key). path_capacity - length p)") auto

definition find_path_st :: "nat option \<Rightarrow> nat list \<Rightarrow> 'k::linorder \<Rightarrow> (nat list \<times> bool, 'k, 'v) st" where
  "find_path_st root_ptr p key = (\<lambda>s. (find_path_on s root_ptr p key, s))"

function right_descent_on ::
  "('k, 'v) store \<Rightarrow> nat option \<Rightarrow> nat list \<Rightarrow> error + nat list"
where
  "right_descent_on s None p = Inr p"
| "right_descent_on s (Some a) p =
     (if length p < path_capacity then
        if a < length s then right_descent_on s (h_right (s ! a)) (a # p)
        else Inl Invalid_pointer
      else Inl Path_overflow)"
  by pat_completeness auto
termination
  by (relation "measure (\<lambda>(s, root, p). path_capacity - length p)") auto

definition find_predecessor_st :: "nat list \<Rightarrow> (nat list, 'k, 'v) st" where
  "find_predecessor_st p =
     (case p of
        [] \<Rightarrow> fail_st (Null_deref ''p.get_node()'')
      | n # _ \<Rightarrow>
          bind_st (get_child_st n LEFT) (\<lambda>l. (\<lambda>s. (right_descent_on s l p, s))))"

fun clone_path_st :: "nat list \<Rightarrow> nat \<Rightarrow> (nat, 'k::linorder, 'v) st" where
  "clone_path_st [] n = ret_st n"
| "clone_path_st (parent # p) n =
     bind_st (clone_st parent) (\<lambda>new_parent.
     bind_st (get_key_st new_parent) (\<lambda>parent_key.
     bind_st (get_key_st n) (\<lambda>node_key.
     bind_st (if parent_key > node_key then set_child_st new_parent LEFT (Some n)
              else set_child_st new_parent RIGHT (Some n)) (\<lambda>_.
     clone_path_st p new_parent))))"

fun clone_path_depth_st ::
  "nat list \<Rightarrow> nat \<Rightarrow> nat \<Rightarrow> (nat \<times> nat list, 'k::linorder, 'v) st"
where
  "clone_path_depth_st [] n depth = ret_st (n, [])"
| "clone_path_depth_st (parent # p) n depth =
     (if length (parent # p) > depth then
        bind_st (clone_st parent) (\<lambda>new_parent.
        bind_st (get_key_st new_parent) (\<lambda>parent_key.
        bind_st (get_key_st n) (\<lambda>node_key.
        bind_st (if parent_key > node_key then set_child_st new_parent LEFT (Some n)
                 else set_child_st new_parent RIGHT (Some n)) (\<lambda>_.
        clone_path_depth_st p new_parent depth))))
      else ret_st (n, parent # p))"

fun clone_path_side_st ::
  "nat list \<Rightarrow> nat option \<Rightarrow> side_t \<Rightarrow> nat
     \<Rightarrow> (nat option \<times> nat list, 'k::linorder, 'v) st"
where
  "clone_path_side_st [] n side depth = ret_st (n, [])"
| "clone_path_side_st [parent] n side depth =
     (if length [parent] > depth then
        bind_st (clone_st parent) (\<lambda>new_parent.
        bind_st (set_child_st new_parent side n) (\<lambda>_.
        fail_st (Null_deref ''grand_parent'')))
      else ret_st (n, [parent]))"
| "clone_path_side_st (parent # grand_parent # p) n side depth =
     (if length (parent # grand_parent # p) > depth then
        bind_st (clone_st parent) (\<lambda>new_parent.
        bind_st (set_child_st new_parent side n) (\<lambda>_.
        bind_st (get_key_st grand_parent) (\<lambda>grand_parent_key.
        bind_st (get_key_st parent) (\<lambda>parent_key.
        clone_path_side_st (grand_parent # p) (Some new_parent)
          (if grand_parent_key > parent_key then LEFT else RIGHT) depth))))
      else ret_st (n, parent # grand_parent # p))"

fun insert_fix_st :: "nat list \<Rightarrow> nat \<Rightarrow> (nat, 'k::linorder, 'v) st" where
  "insert_fix_st [] n = bind_st (set_color_st n BLACK) (\<lambda>_. ret_st n)"
| "insert_fix_st [parent] n =
     bind_st (get_color_st parent) (\<lambda>parent_color.
     if parent_color = BLACK then clone_path_st [parent] n
     else fail_st (Null_deref ''grand_parent''))"
| "insert_fix_st (parent # grand_parent # p) n =
     bind_st (get_color_st parent) (\<lambda>parent_color.
     if parent_color = BLACK then clone_path_st (parent # grand_parent # p) n
     else
       bind_st (get_key_st grand_parent) (\<lambda>grand_parent_key.
       bind_st (get_key_st parent) (\<lambda>parent_key.
       bind_st (get_key_st n) (\<lambda>node_key.
       let parent_side = (if grand_parent_key > parent_key then LEFT else RIGHT);
           node_side = (if parent_key > node_key then LEFT else RIGHT)
       in
       bind_st (get_child_st grand_parent (opposite parent_side)) (\<lambda>uncle.
       bind_st (red_ptr_st uncle) (\<lambda>uncle_red.
       if uncle_red then
         bind_st (deref ''uncle'' uncle) (\<lambda>uncle_node.
         bind_st (clone_st parent) (\<lambda>new_parent.
         bind_st (set_color_st new_parent BLACK) (\<lambda>_.
         bind_st (set_child_st new_parent node_side (Some n)) (\<lambda>_.
         bind_st (clone_st uncle_node) (\<lambda>new_uncle.
         bind_st (set_color_st new_uncle BLACK) (\<lambda>_.
         bind_st (clone_st grand_parent) (\<lambda>new_grand_parent.
         bind_st (set_color_st new_grand_parent RED) (\<lambda>_.
         bind_st (set_child_st new_grand_parent parent_side (Some new_parent)) (\<lambda>_.
         bind_st (set_child_st new_grand_parent (opposite parent_side) (Some new_uncle)) (\<lambda>_.
         insert_fix_st p new_grand_parent))))))))))
       else
         bind_st (clone_st parent) (\<lambda>new_parent.
         bind_st (clone_st grand_parent) (\<lambda>new_grand_parent.
         if parent_side \<noteq> node_side then
           bind_st (get_child_st n parent_side) (\<lambda>inner.
           bind_st (set_child_st new_parent node_side inner) (\<lambda>_.
           bind_st (get_child_st n node_side) (\<lambda>outer.
           bind_st (set_child_st new_grand_parent parent_side outer) (\<lambda>_.
           bind_st (set_color_st new_grand_parent RED) (\<lambda>_.
           bind_st (set_child_st n parent_side (Some new_parent)) (\<lambda>_.
           bind_st (set_child_st n node_side (Some new_grand_parent)) (\<lambda>_.
           bind_st (set_color_st n BLACK) (\<lambda>_.
           clone_path_st p n))))))))
         else
           bind_st (get_child_st parent (opposite parent_side)) (\<lambda>inner.
           bind_st (set_child_st new_grand_parent parent_side inner) (\<lambda>_.
           bind_st (set_color_st new_grand_parent RED) (\<lambda>_.
           bind_st (set_child_st new_parent (opposite parent_side) (Some new_grand_parent)) (\<lambda>_.
           bind_st (set_child_st new_parent parent_side (Some n)) (\<lambda>_.
           bind_st (set_color_st new_parent BLACK) (\<lambda>_.
           clone_path_st p new_parent))))))))))))))"

definition has_black_sibling_with_red_child_st :: "nat \<Rightarrow> side_t \<Rightarrow> (bool, 'k, 'v) st" where
  "has_black_sibling_with_red_child_st parent side =
     bind_st (get_child_st parent (opposite side)) (\<lambda>sibling_ptr.
     bind_st (deref ''sibling'' sibling_ptr) (\<lambda>sibling.
     bind_st (get_color_st sibling) (\<lambda>sibling_color.
     if sibling_color = RED then ret_st False else has_red_child_st sibling)))"

definition has_black_sibling_with_black_children_st :: "nat \<Rightarrow> side_t \<Rightarrow> (bool, 'k, 'v) st" where
  "has_black_sibling_with_black_children_st parent side =
     bind_st (get_child_st parent (opposite side)) (\<lambda>sibling_ptr.
     bind_st (deref ''sibling'' sibling_ptr) (\<lambda>sibling.
     bind_st (get_color_st sibling) (\<lambda>sibling_color.
     if sibling_color = RED then ret_st False
     else bind_st (has_red_child_st sibling) (\<lambda>b. ret_st (\<not> b)))))"

definition delete_fixup_1_st :: "nat \<Rightarrow> side_t \<Rightarrow> (nat, 'k, 'v) st" where
  "delete_fixup_1_st parent side =
     bind_st (get_color_st parent) (\<lambda>parent_color.
     bind_st (get_child_st parent (opposite side)) (\<lambda>sibling_ptr.
     bind_st (deref ''sibling'' sibling_ptr) (\<lambda>sibling.
     bind_st (get_child_st sibling side) (\<lambda>child_1.
     bind_st (red_ptr_st child_1) (\<lambda>child_1_red.
     if child_1_red then
       bind_st (deref ''child_1'' child_1) (\<lambda>child_1_node.
       bind_st (clone_st child_1_node) (\<lambda>new_child_1.
       bind_st (clone_st parent) (\<lambda>new_parent.
       bind_st (clone_st sibling) (\<lambda>new_sibling.
       bind_st (set_color_st new_child_1 parent_color) (\<lambda>_.
       bind_st (set_child_st new_child_1 side (Some new_parent)) (\<lambda>_.
       bind_st (set_child_st new_child_1 (opposite side) (Some new_sibling)) (\<lambda>_.
       bind_st (set_color_st new_parent BLACK) (\<lambda>_.
       bind_st (get_child_st child_1_node side) (\<lambda>inner.
       bind_st (set_child_st new_parent (opposite side) inner) (\<lambda>_.
       bind_st (get_child_st child_1_node (opposite side)) (\<lambda>outer.
       bind_st (set_child_st new_sibling side outer) (\<lambda>_.
       ret_st new_child_1))))))))))))
     else
       bind_st (get_child_st sibling (opposite side)) (\<lambda>child_2_ptr.
       bind_st (deref ''child_2'' child_2_ptr) (\<lambda>child_2.
       bind_st (clone_st child_2) (\<lambda>new_child_2.
       bind_st (clone_st parent) (\<lambda>new_parent.
       bind_st (clone_st sibling) (\<lambda>new_sibling.
       bind_st (set_color_st new_sibling parent_color) (\<lambda>_.
       bind_st (set_child_st new_sibling side (Some new_parent)) (\<lambda>_.
       bind_st (set_child_st new_sibling (opposite side) (Some new_child_2)) (\<lambda>_.
       bind_st (set_color_st new_parent BLACK) (\<lambda>_.
       bind_st (get_child_st sibling side) (\<lambda>inner.
       bind_st (set_child_st new_parent (opposite side) inner) (\<lambda>_.
       bind_st (set_color_st new_child_2 BLACK) (\<lambda>_.
       ret_st new_sibling)))))))))))))))))"

definition delete_fixup_2_st :: "nat \<Rightarrow> side_t \<Rightarrow> (nat, 'k, 'v) st" where
  "delete_fixup_2_st parent side =
     bind_st (get_child_st parent (opposite side)) (\<lambda>sibling_ptr.
     bind_st (deref ''sibling'' sibling_ptr) (\<lambda>sibling.
     bind_st (clone_st sibling) (\<lambda>new_sibling.
     bind_st (clone_st parent) (\<lambda>new_parent.
     bind_st (set_color_st new_sibling RED) (\<lambda>_.
     bind_st (set_color_st new_parent BLACK) (\<lambda>_.
     bind_st (set_child_st new_parent (opposite side) (Some new_sibling)) (\<lambda>_.
     ret_st new_parent)))))))"

definition delete_fixup_3_st :: "nat \<Rightarrow> side_t \<Rightarrow> (nat, 'k, 'v) st" where
  "delete_fixup_3_st parent side =
     bind_st (get_child_st parent (opposite side)) (\<lambda>sibling_ptr.
     bind_st (deref ''sibling'' sibling_ptr) (\<lambda>sibling.
     bind_st (clone_st sibling) (\<lambda>new_sibling.
     bind_st (clone_st parent) (\<lambda>new_parent.
     bind_st (get_color_st parent) (\<lambda>parent_color.
     bind_st (set_color_st new_sibling parent_color) (\<lambda>_.
     bind_st (set_child_st new_sibling side (Some new_parent)) (\<lambda>_.
     bind_st (set_color_st new_parent RED) (\<lambda>_.
     bind_st (get_child_st sibling side) (\<lambda>inner.
     bind_st (set_child_st new_parent (opposite side) inner) (\<lambda>_.
     bind_st (has_black_sibling_with_red_child_st new_parent side) (\<lambda>red_child.
     if red_child then
       bind_st (delete_fixup_1_st new_parent side) (\<lambda>new_parent'.
       bind_st (set_child_st new_sibling side (Some new_parent')) (\<lambda>_.
       ret_st new_sibling))
     else
       bind_st (has_black_sibling_with_black_children_st new_parent side) (\<lambda>black_children.
       if black_children then
         bind_st (delete_fixup_2_st new_parent side) (\<lambda>new_parent'.
         bind_st (set_child_st new_sibling side (Some new_parent')) (\<lambda>_.
         ret_st new_sibling))
       else ret_st new_sibling))))))))))))"

fun delete_fixup_st :: "nat list \<Rightarrow> nat \<Rightarrow> side_t \<Rightarrow> (nat, 'k::linorder, 'v) st" where
  "delete_fixup_st p parent side =
     bind_st (has_black_sibling_with_red_child_st parent side) (\<lambda>red_child.
     if red_child then
       bind_st (delete_fixup_1_st parent side) (\<lambda>new_parent. clone_path_st p new_parent)
     else
       bind_st (has_black_sibling_with_black_children_st parent side) (\<lambda>black_children.
       if black_children then
         bind_st (get_color_st parent) (\<lambda>parent_color.
         bind_st (delete_fixup_2_st parent side) (\<lambda>new_parent.
         case p of
           grand_parent # p' \<Rightarrow>
             if parent_color = BLACK \<and> length p > 0 then
               bind_st (get_key_st grand_parent) (\<lambda>grand_parent_key.
               bind_st (get_key_st parent) (\<lambda>parent_key.
               let parent_side = (if grand_parent_key > parent_key then LEFT else RIGHT) in
               bind_st (clone_st grand_parent) (\<lambda>new_grand_parent.
               bind_st (set_child_st new_grand_parent parent_side (Some new_parent)) (\<lambda>_.
               delete_fixup_st p' new_grand_parent parent_side))))
             else clone_path_st p new_parent
         | [] \<Rightarrow> clone_path_st p new_parent))
       else
         bind_st (delete_fixup_3_st parent side) (\<lambda>new_parent. clone_path_st p new_parent)))"

definition pop_st :: "nat list \<Rightarrow> (nat list, 'k, 'v) st" where
  "pop_st p = (case p of [] \<Rightarrow> fail_st Path_underflow | _ # p' \<Rightarrow> ret_st p')"

definition get_pair_st :: "nat \<Rightarrow> ('k \<times> 'v, 'k, 'v) st" where
  "get_pair_st a = bind_st (node_at a) (\<lambda>c. ret_st (h_kvp c))"

definition erase_intermediate_node_st :: "nat list \<Rightarrow> (nat, 'k::linorder, 'v) st" where
  "erase_intermediate_node_st p =
     (case p of
        [] \<Rightarrow> fail_st (Null_deref ''erased_node'')
      | erased_node # _ \<Rightarrow>
          bind_st (get_color_st erased_node) (\<lambda>node_color.
          let depth = length p in
          bind_st (find_predecessor_st p) (\<lambda>p1.
          case p1 of
            [] \<Rightarrow> fail_st (Null_deref ''predecessor'')
          | predecessor # p2 \<Rightarrow>
              let predecessor_depth = length p1;
                  predecessor_side = (if predecessor_depth - depth > 1 then RIGHT else LEFT)
              in
              bind_st (get_color_st predecessor) (\<lambda>predecessor_color.
              bind_st (clone_st predecessor) (\<lambda>new_node.
              bind_st (set_color_st new_node node_color) (\<lambda>_.
              if predecessor_color = RED then
                bind_st (clone_path_side_st p2 None predecessor_side depth) (\<lambda>(sub_tree, p3).
                bind_st (set_child_st new_node LEFT sub_tree) (\<lambda>_.
                bind_st (get_child_st erased_node RIGHT) (\<lambda>erased_right.
                bind_st (set_child_st new_node RIGHT erased_right) (\<lambda>_.
                bind_st (pop_st p3) (\<lambda>p4.
                clone_path_st p4 new_node)))))
              else
                bind_st (get_child_st predecessor LEFT) (\<lambda>left_ptr.
                case left_ptr of
                  Some left_node \<Rightarrow>
                    bind_st (clone_st left_node) (\<lambda>new_child.
                    bind_st (set_color_st new_child BLACK) (\<lambda>_.
                    bind_st (clone_path_depth_st p2 new_child depth) (\<lambda>(sub_tree, p3).
                    bind_st (set_child_st new_node LEFT (Some sub_tree)) (\<lambda>_.
                    bind_st (get_child_st erased_node RIGHT) (\<lambda>erased_right.
                    bind_st (set_child_st new_node RIGHT erased_right) (\<lambda>_.
                    bind_st (pop_st p3) (\<lambda>p4.
                    clone_path_st p4 new_node)))))))
                | None \<Rightarrow>
                    bind_st (if predecessor_side = LEFT then get_pair_st predecessor
                             else (case p2 of
                                     [] \<Rightarrow> fail_st (Null_deref ''p.get_node()'')
                                   | n # _ \<Rightarrow> get_pair_st n)) (\<lambda>kvp.
                    bind_st (clone_path_side_st p2 None predecessor_side depth) (\<lambda>(sub_tree, p3).
                    bind_st (set_child_st new_node LEFT sub_tree) (\<lambda>_.
                    bind_st (get_child_st erased_node RIGHT) (\<lambda>erased_right.
                    bind_st (set_child_st new_node RIGHT erased_right) (\<lambda>_.
                    bind_st (pop_st p3) (\<lambda>p4.
                    bind_st (clone_path_st p4 new_node) (\<lambda>temp_root.
                    bind_st (find_path_st (Some temp_root) [] (fst kvp)) (\<lambda>(p5, _).
                    case p5 of
                      [] \<Rightarrow> fail_st (Null_deref ''new_parent'')
                    | new_parent # p6 \<Rightarrow>
                        delete_fixup_st p6 new_parent predecessor_side)))))))))))))))"

definition erase_imp_st :: "nat list \<Rightarrow> (nat option, 'k::linorder, 'v) st" where
  "erase_imp_st p =
     (case p of
        [] \<Rightarrow> fail_st (Null_deref ''n'')
      | n # p1 \<Rightarrow>
          bind_st (get_child_st n LEFT) (\<lambda>left_ptr.
          bind_st (get_child_st n RIGHT) (\<lambda>right_ptr.
          if left_ptr \<noteq> None \<and> right_ptr \<noteq> None then
            bind_st (erase_intermediate_node_st p) (\<lambda>r. ret_st (Some r))
          else
            (case left_ptr of
               Some left_node \<Rightarrow>
                 bind_st (clone_st left_node) (\<lambda>new_child.
                 bind_st (set_color_st new_child BLACK) (\<lambda>_.
                 bind_st (clone_path_st p1 new_child) (\<lambda>r. ret_st (Some r))))
             | None \<Rightarrow>
                 (case right_ptr of
                    Some right_node \<Rightarrow>
                      bind_st (clone_st right_node) (\<lambda>new_child.
                      bind_st (set_color_st new_child BLACK) (\<lambda>_.
                      bind_st (clone_path_st p1 new_child) (\<lambda>r. ret_st (Some r))))
                  | None \<Rightarrow>
                      bind_st (get_color_st n) (\<lambda>n_color.
                      if n_color = RED then
                        (case p1 of
                           [] \<Rightarrow> fail_st (Null_deref ''p.get_parent()'')
                         | parent # p2 \<Rightarrow>
                             bind_st (get_key_st parent) (\<lambda>parent_key.
                             bind_st (get_key_st n) (\<lambda>node_key.
                             let parent_side = (if parent_key > node_key then LEFT else RIGHT) in
                             bind_st (clone_st parent) (\<lambda>new_parent.
                             bind_st (set_child_st new_parent parent_side None) (\<lambda>_.
                             bind_st (clone_path_st p2 new_parent) (\<lambda>r. ret_st (Some r)))))))
                      else if length p = 1 then ret_st None
                      else
                        (case p1 of
                           [] \<Rightarrow> fail_st (Null_deref ''p.get_parent()'')
                         | parent # p2 \<Rightarrow>
                             bind_st (get_key_st parent) (\<lambda>parent_key.
                             bind_st (get_key_st n) (\<lambda>node_key.
                             let parent_side = (if parent_key > node_key then LEFT else RIGHT) in
                             bind_st (clone_st parent) (\<lambda>new_parent.
                             bind_st (set_child_st new_parent parent_side None) (\<lambda>_.
                             bind_st (delete_fixup_st p2 new_parent parent_side)
                               (\<lambda>r. ret_st (Some r)))))))))))))"

record stored_map =
  s_root :: "nat option"
  s_size :: "64 word"

definition insert_imp_p_st ::
  "nat option \<Rightarrow> 'k \<times> 'v \<Rightarrow> nat list \<Rightarrow> (nat, 'k::linorder, 'v) st"
where
  "insert_imp_p_st root_ptr kvp p =
     (if root_ptr = None then make_shared kvp None None BLACK
      else bind_st (make_shared kvp None None RED) (\<lambda>n. insert_fix_st p n))"

definition insert_imp_st ::
  "stored_map \<Rightarrow> 'k \<times> 'v \<Rightarrow> (stored_map, 'k::linorder, 'v) st"
where
  "insert_imp_st m kvp =
     bind_st (find_path_st (s_root m) [] (fst kvp)) (\<lambda>(p, match).
     if match then
       (case p of
          [] \<Rightarrow> fail_st (Null_deref ''p.get_node()'')
        | n # p1 \<Rightarrow>
            bind_st (clone_st n) (\<lambda>new_node.
            bind_st (set_pair_st new_node kvp) (\<lambda>_.
            bind_st (clone_path_st p1 new_node) (\<lambda>r.
            ret_st \<lparr>s_root = Some r, s_size = s_size m\<rparr>))))
     else
       bind_st (insert_imp_p_st (s_root m) kvp p) (\<lambda>r.
       ret_st \<lparr>s_root = Some r, s_size = s_size m + 1\<rparr>))"

definition insert_st ::
  "stored_map \<Rightarrow> 'k \<times> 'v \<Rightarrow> (stored_map, 'k::linorder, 'v) st"
where
  "insert_st m kvp = insert_imp_st m kvp"

definition erase_st :: "stored_map \<Rightarrow> 'k \<Rightarrow> (stored_map, 'k::linorder, 'v) st" where
  "erase_st m key =
     bind_st (find_path_st (s_root m) [] key) (\<lambda>(p, match).
     if \<not> match then ret_st m
     else
       bind_st (erase_imp_st p) (\<lambda>new_root.
       ret_st \<lparr>s_root = new_root, s_size = s_size m - 1\<rparr>))"

text \<open>
  The tree that a pointer stands for in a store. It exists only if every node reached from the
  pointer is in the store and no node is reached from itself.
\<close>

inductive repr :: "('k, 'v) store \<Rightarrow> nat option \<Rightarrow> ('k, 'v) node option \<Rightarrow> bool" where
  repr_None: "repr s None None"
| repr_Some: "a < length s \<Longrightarrow> s ! a = HNode kvp l r c \<Longrightarrow> repr s l lt \<Longrightarrow> repr s r rt
     \<Longrightarrow> repr s (Some a) (Some (Node kvp lt rt c))"

code_pred repr .

definition pres :: "nat \<Rightarrow> ('a, 'k, 'v) st \<Rightarrow> bool" where
  "pres b f = (\<forall>s. b \<le> length s \<longrightarrow> b \<le> length (snd (f s)) \<and> take b (snd (f s)) = take b s)"


text \<open>
  The observers of a map over the store. \<^verbatim>\<open>node::foreach\<close> recurses into both children; on a store
  in which a node reaches itself it would not return, which is the value \<open>None\<close> here.
\<close>

partial_function (option) foreach_on ::
  "('k, 'v) store \<Rightarrow> nat option \<Rightarrow> (error + ('k \<times> 'v) list) option"
where
  "foreach_on s p =
     (case p of
        None \<Rightarrow> Some (Inr [])
      | Some a \<Rightarrow>
          if a < length s then
            Option.bind (foreach_on s (h_left (s ! a))) (\<lambda>l.
            case l of
              Inl e \<Rightarrow> Some (Inl e)
            | Inr xs \<Rightarrow>
                Option.bind (foreach_on s (h_right (s ! a))) (\<lambda>r.
                case r of
                  Inl e \<Rightarrow> Some (Inl e)
                | Inr ys \<Rightarrow> Some (Inr (xs @ h_kvp (s ! a) # ys))))
          else Some (Inl Invalid_pointer))"

declare foreach_on.simps [code]

definition size_st :: "stored_map \<Rightarrow> 64 word" where
  "size_st m = s_size m"

definition contains_st :: "stored_map \<Rightarrow> 'k \<Rightarrow> (bool, 'k::linorder, 'v) st" where
  "contains_st m key =
     bind_st (find_path_st (s_root m) [] key) (\<lambda>(p, match). ret_st match)"

definition same_view ::
  "stored_map \<Rightarrow> 'k::linorder \<Rightarrow> ('k, 'v) store \<Rightarrow> ('k, 'v) store \<Rightarrow> bool"
where
  "same_view m key s s' =
     (take (length s) s' = s \<and>
      foreach_on s' (s_root m) = foreach_on s (s_root m) \<and>
      fst (contains_st m key s') = fst (contains_st m key s) \<and>
      fst (find_path_st (s_root m) [] key s') = fst (find_path_st (s_root m) [] key s))"


text \<open>A store of three nodes and a map whose root is its third node.\<close>

definition example_store :: "(nat, nat) store" where
  "example_store =
     [HNode (1, 10) None None RED, HNode (3, 30) None None RED,
      HNode (2, 20) (Some 0) (Some 1) BLACK]"

definition example_receiver :: stored_map where
  "example_receiver = \<lparr>s_root = Some 2, s_size = 3\<rparr>"

definition example_tree :: "(nat, nat) node option" where
  "example_tree =
     Some (Node (2, 20) (Some (Node (1, 10) None None RED)) (Some (Node (3, 30) None None RED))
       BLACK)"

text \<open>
  The map that the default constructor builds, and the store that the scenario of the README
  leaves: the nodes that the three insertions and the erasure allocate, in this order.
\<close>

definition empty_st :: stored_map where
  "empty_st = \<lparr>s_root = None, s_size = 0\<rparr>"

definition scenario_store :: "(int, real) store" where
  "scenario_store =
     [HNode (10, 3.14) None None BLACK, HNode (15, 6.28) None None RED,
      HNode (10, 3.14) None (Some 1) BLACK, HNode (20, 3.14) None None RED,
      HNode (15, 6.28) (Some 5) (Some 3) BLACK, HNode (10, 3.14) None None RED,
      HNode (10, 3.14) None (Some 3) BLACK]"

section \<open>Evaluation\<close>

lemmas node_ops =
  get_key_def get_pair_def get_color_def is_red_def is_black_def has_red_child_def

lemmas path_ops = push_def pop_def path_capacity_def sizeof_size_t_def

lemmas facade_ops =
  insert_m_def insert_imp_def insert_imp_p_def erase_def contains_def
  foreach_def size_m_def empty_map_def validate_def

lemmas erase_ops =
  erase_imp_def erase_intermediate_node_def find_predecessor_def
  has_black_sibling_with_red_child_def has_black_sibling_with_black_children_def
  delete_fixup_1_def delete_fixup_2_def delete_fixup_3_def

section \<open>The usage scenario\<close>

lemma scenario_map1:
  "insert_m empty_map (10::int, 3.14::real) =
     Inr \<lparr>m_root = Some (Node (10, 3.14) None None BLACK), m_size = 1\<rparr>"
  by (simp add: facade_ops path_ops node_ops)

lemma scenario_map2:
  "insert_m \<lparr>m_root = Some (Node (10::int, 3.14::real) None None BLACK), m_size = 1\<rparr>
     (15, 6.28) =
     Inr \<lparr>m_root = Some (Node (10, 3.14) None (Some (Node (15, 6.28) None None RED)) BLACK),
          m_size = 2\<rparr>"
  by (simp add: facade_ops path_ops node_ops)

lemma scenario_map3:
  "insert_m
     \<lparr>m_root = Some (Node (10::int, 3.14::real) None (Some (Node (15, 6.28) None None RED))
        BLACK), m_size = 2\<rparr>
     (20, 3.14) =
     Inr \<lparr>m_root = Some (Node (15, 6.28) (Some (Node (10, 3.14) None None RED))
            (Some (Node (20, 3.14) None None RED)) BLACK),
          m_size = 3\<rparr>"
  by (simp add: facade_ops path_ops node_ops)

lemma scenario_map4:
  "erase
     \<lparr>m_root = Some (Node (15::int, 6.28::real) (Some (Node (10, 3.14) None None RED))
        (Some (Node (20, 3.14) None None RED)) BLACK), m_size = 3\<rparr>
     15 =
     Inr \<lparr>m_root = Some (Node (10, 3.14) None (Some (Node (20, 3.14) None None RED)) BLACK),
          m_size = 2\<rparr>"
  by (simp add: facade_ops path_ops node_ops erase_ops)

lemma scenario_values:
  "\<exists>map1 map2 map3 map4.
     insert_m empty_map (10::int, 3.14::real) = Inr map1 \<and>
     insert_m map1 (15, 6.28) = Inr map2 \<and>
     insert_m map2 (20, 3.14) = Inr map3 \<and>
     erase map3 15 = Inr map4 \<and>
     size_m map4 = 2 \<and> contains map4 11 = Inr False \<and>
     foreach map4 = [(10, 3.14), (20, 3.14)] \<and>
     size_m map3 = 3 \<and> contains map3 15 = Inr True"
  apply (intro exI conjI)
          apply (rule scenario_map1)
         apply (rule scenario_map2)
        apply (rule scenario_map3)
       apply (rule scenario_map4)
      apply (simp_all add: facade_ops path_ops node_ops)
  done

section \<open>What \<^verbatim>\<open>validate\<close> checks\<close>

lemma color_cases: "c \<noteq> RED \<longleftrightarrow> c = BLACK"
  by (cases c) auto

lemma validate_ptr_ok: "invc t \<Longrightarrow> invh t \<Longrightarrow> validate_ptr t = Inr (int (bheight t))"
  by (induction t rule: validate_ptr.induct) (auto simp: color_cases)

lemma validate_ptr_Inr: "validate_ptr t = Inr d \<Longrightarrow> invc t \<and> invh t \<and> d = int (bheight t)"
  by (induction t arbitrary: d rule: validate_ptr.induct)
     (auto simp: color_cases split: sum.splits if_splits)

lemma validate_ptr_Inl: "validate_ptr t = Inl e \<Longrightarrow> \<exists>msg. e = Runtime_error msg"
  by (induction t rule: validate_ptr.induct) (auto split: sum.splits if_splits)

text \<open>
  C7, as the code has it. \<^verbatim>\<open>validate\<close> returns exactly when the root is not red, no red
  node has a red child and the black heights agree at every node; otherwise it throws a
  \<^verbatim>\<open>std::runtime_error\<close>. The ordering of the keys is not looked at.
\<close>

theorem validate_checks:
  "(validate m = Inr () \<longleftrightarrow>
      \<not> red_ptr (m_root m) \<and> invc (m_root m) \<and> invh (m_root m)) \<and>
   (validate m = Inr () \<or> (\<exists>msg. validate m = Inl (Runtime_error msg)))"
  using validate_ptr_ok[of "m_root m"] validate_ptr_Inr[of "m_root m"]
    validate_ptr_Inl[of "m_root m"]
  by (auto simp: validate_def split: sum.splits)

theorem validate_checks_witness:
  "validate unordered_map = Inr () \<and> \<not> red_ptr (m_root unordered_map) \<and>
   invc (m_root unordered_map) \<and> invh (m_root unordered_map)"
  using validate_checks[of unordered_map]
  by (simp add: unordered_map_def validate_def is_red_def)

text \<open>
  C7 as stated fails: the map below has the key 3 in the left subtree of the key 2, and
  \<^verbatim>\<open>validate\<close> returns on it.
\<close>

theorem validate_ignores_order:
  "\<not> bst (m_root unordered_map) \<and> validate unordered_map = Inr ()"
  by (simp add: unordered_map_def validate_def is_red_def bst_def)

section \<open>Paths, contexts and the invariants\<close>

lemma fill_frame_of [simp]: "fill (frame_of sd n) s = set_child sd s n"
  by (cases n; cases sd) (simp_all add: frame_of_def)

lemma get_key_fill [simp]: "get_key (fill f s) = fst (fkvp f)"
  by (cases f; cases "fside f") (auto simp: get_key_def)

lemma get_key_set_child [simp]: "get_key (set_child sd s n) = get_key n"
  by (cases n; cases sd) (simp_all add: get_key_def)

lemma get_key_set_color [simp]: "get_key (set_color c n) = get_key n"
  by (cases n) (simp_all add: get_key_def)

lemma plug_append: "plug (fs @ gs) s = plug gs (plug fs s)"
  by (induction fs arbitrary: s) auto

lemma foreach_fill: "foreach_ptr (Some (fill f s)) = pre [f] @ foreach_ptr s @ post [f]"
  by (cases f; cases "fside f") auto

lemma foreach_plug: "foreach_ptr (plug fs s) = pre fs @ foreach_ptr s @ post fs"
proof (induction fs arbitrary: s)
  case Nil
  show ?case by simp
next
  case (Cons f fs)
  show ?case
    by (cases f; cases "fside f") (auto simp: Cons)
qed

lemma clone_path_plug: "Some (clone_path p n) = plug (frames_for (get_key n) p) (Some n)"
  by (induction p arbitrary: n) (auto simp: dirk_def)

lemma trail_sub_anc: "trail k t = (case sub k t of None \<Rightarrow> anc k t | Some n \<Rightarrow> n # anc k t)"
  by (induction k t rule: trail.induct) (auto split: option.splits)

lemma find_path_trail:
  "find_path t p k =
     (if t = None \<or> length (trail k t) + length p \<le> path_capacity
      then Inr (trail k t @ p, sub k t \<noteq> None)
      else Inl Path_overflow)"
  by (induction t p k rule: find_path.induct) (auto simp: push_def)

lemma sub_key: "sub k t = Some n \<Longrightarrow> get_key n = k"
  by (induction k t rule: sub.induct) (auto simp: get_key_def split: if_splits)

lemma anc_keys: "a \<in> set (anc k t) \<Longrightarrow> get_key a \<noteq> k"
  by (induction k t rule: anc.induct) (auto simp: get_key_def split: if_splits)

lemma plug_anc: "plug (kframes k (anc k t)) (sub k t) = t"
  by (induction k t rule: anc.induct)
     (auto simp: kframes_def plug_append dirk_def get_key_def)

lemma length_trail: "length (trail k t) \<le> height t"
  by (induction k t rule: trail.induct) auto

lemma keys_None [simp]: "keys None = {}"
  by (simp add: keys_def)

lemma keys_Node [simp]: "keys (Some (Node kvp l r c)) = keys l \<union> {fst kvp} \<union> keys r"
  by (auto simp: keys_def)

lemma bst_None [simp]: "bst None"
  by (simp add: bst_def)

lemma bst_Node [simp]:
  "bst (Some (Node kvp l r c)) \<longleftrightarrow>
     bst l \<and> bst r \<and> (\<forall>x\<in>keys l. x < fst kvp) \<and> (\<forall>y\<in>keys r. fst kvp < y)"
  unfolding bst_def keys_def
  by (simp add: sorted_wrt_append ball_Un) (use less_trans in blast)

lemma keys_fill [simp]: "keys (Some (fill f s)) = keys s \<union> {fst (fkvp f)} \<union> keys (fsibling f)"
  by (cases f; cases "fside f") auto

lemma bst_fill_sub: "bst (Some (fill f s)) \<Longrightarrow> bst s"
  by (cases f; cases "fside f") auto

lemma bst_plug_sub: "bst (plug fs s) \<Longrightarrow> bst s"
  by (induction fs arbitrary: s) (auto dest: bst_fill_sub)

lemma keys_plug_sub: "keys s \<subseteq> keys (plug fs s)"
proof (induction fs arbitrary: s)
  case Nil
  show ?case by simp
next
  case (Cons f fs)
  have "keys s \<subseteq> keys (Some (fill f s))" by auto
  then show ?case using Cons[of "Some (fill f s)"] by simp
qed

lemma bst_plug_cong:
  "map fst (foreach_ptr s) = map fst (foreach_ptr s') \<Longrightarrow> bst (plug fs s) = bst (plug fs s')"
  by (simp add: bst_def foreach_plug)

lemma sorted3:
  "sorted_wrt (<) (map fst (a @ xs @ b)) \<longleftrightarrow>
     sorted_wrt (<) (map fst a) \<and> sorted_wrt (<) (map fst xs) \<and> sorted_wrt (<) (map fst b) \<and>
     (\<forall>x\<in>fst ` set a. \<forall>y\<in>fst ` set xs. x < y) \<and>
     (\<forall>x\<in>fst ` set a. \<forall>y\<in>fst ` set b. x < y) \<and>
     (\<forall>x\<in>fst ` set xs. \<forall>y\<in>fst ` set b. x < y)"
  by (simp add: sorted_wrt_append ball_Un) blast

lemma bst_plug_iff:
  "bst (plug fs s) \<longleftrightarrow>
     bst (plug fs None) \<and> bst s \<and>
     (\<forall>x\<in>fst ` set (pre fs). \<forall>y\<in>keys s. x < y) \<and>
     (\<forall>x\<in>keys s. \<forall>y\<in>fst ` set (post fs). x < y)"
  unfolding bst_def foreach_plug keys_def sorted3
  by (auto simp: sorted_wrt_append)

lemma bst_plug_subset:
  "bst (plug fs s) \<Longrightarrow> bst s' \<Longrightarrow> keys s' \<subseteq> keys s \<Longrightarrow> bst (plug fs s')"
  using bst_plug_iff[of fs s] bst_plug_iff[of fs s'] by blast

lemma bst_fill_side:
  "bst (Some (fill f s)) \<Longrightarrow> k \<in> keys s \<Longrightarrow>
     fst (fkvp f) \<noteq> k \<and> fside f = (if fst (fkvp f) > k then LEFT else RIGHT)"
  by (cases f; cases "fside f") auto

lemma bst_plug_sides:
  "bst (plug fs s) \<Longrightarrow> k \<in> keys s \<Longrightarrow> f \<in> set fs \<Longrightarrow>
     fst (fkvp f) \<noteq> k \<and> fside f = (if fst (fkvp f) > k then LEFT else RIGHT)"
proof (induction fs arbitrary: s)
  case Nil
  then show ?case by simp
next
  case (Cons g fs)
  have sub: "bst (Some (fill g s))"
    using Cons.prems(1) bst_plug_sub[of fs "Some (fill g s)"] by simp
  show ?case
  proof (cases "f = g")
    case True
    then show ?thesis using bst_fill_side[OF sub Cons.prems(2)] by simp
  next
    case False
    then have "f \<in> set fs" using Cons.prems(3) by simp
    moreover have "k \<in> keys (Some (fill g s))" using Cons.prems(2) by simp
    ultimately show ?thesis using Cons.IH[of "Some (fill g s)"] Cons.prems(1) by simp
  qed
qed

text \<open>The sides that clone_path computes from the keys are the sides of the frames.\<close>

lemma frames_for_eq:
  "list_all2 (\<lambda>f a. f = frame_of (fside f) a) fs p \<Longrightarrow> bst (plug fs (Some n)) \<Longrightarrow>
     frames_for (get_key n) p = fs"
proof (induction fs p arbitrary: n rule: list_all2_induct)
  case Nil
  show ?case by simp
next
  case (Cons f fs a p)
  have sub: "bst (Some (fill f (Some n)))"
    using Cons.prems bst_plug_sub[of fs "Some (fill f (Some n))"] by simp
  have key: "fst (fkvp f) = get_key a"
    using Cons.hyps(1) by (metis frame.sel(2) frame_of_def get_key_def)
  have "get_key n \<in> keys (Some n)"
    by (cases n) (simp add: get_key_def)
  from bst_fill_side[OF sub this]
  have side: "fside f = dirk (get_key n) a"
    by (simp add: dirk_def key)
  have "frames_for (get_key (fill f (Some n))) p = fs"
    using Cons.IH[of "fill f (Some n)"] Cons.prems by simp
  then show ?case
    using side Cons.hyps(1) key by simp
qed

lemma kframes_all2: "list_all2 (\<lambda>f a. f = frame_of (fside f) a) (kframes k p) p"
  by (induction p) (auto simp: kframes_def frame_of_def)

lemma frames_for_kframes:
  "bst (plug (kframes k p) (Some n)) \<Longrightarrow> frames_for (get_key n) p = kframes k p"
  by (rule frames_for_eq[OF kframes_all2])

lemma bheight_fill:
  "bheight (Some (fill f s)) =
     (case fside f of LEFT \<Rightarrow> bheight s | RIGHT \<Rightarrow> bheight (fsibling f))
       + (if fcolor f = BLACK then 1 else 0)"
  by (cases f; cases "fside f") auto

lemma invh_fill: "invh (Some (fill f s)) \<longleftrightarrow> invh s \<and> invh (fsibling f) \<and> bheight s = bheight (fsibling f)"
  by (cases f; cases "fside f") auto

lemma invc_fill:
  "invc (Some (fill f s)) \<longleftrightarrow>
     invc s \<and> invc (fsibling f) \<and> (fcolor f = BLACK \<or> (\<not> red_ptr s \<and> \<not> red_ptr (fsibling f)))"
  by (cases f; cases "fside f") auto

lemma is_red_fill [simp]: "is_red (fill f s) = (fcolor f = RED)"
  by (cases f; cases "fside f") (auto simp: is_red_def)

lemma invh_plug_sub: "invh (plug fs s) \<Longrightarrow> invh s"
proof (induction fs arbitrary: s)
  case Nil
  then show ?case by simp
next
  case (Cons f fs)
  then have "invh (Some (fill f s))" by simp
  then show ?case by (simp add: invh_fill)
qed

lemma invc_plug_sub: "invc (plug fs s) \<Longrightarrow> invc s"
proof (induction fs arbitrary: s)
  case Nil
  then show ?case by simp
next
  case (Cons f fs)
  then have "invc (Some (fill f s))" by simp
  then show ?case by (simp add: invc_fill)
qed

lemma invh_plug:
  "invh (plug fs s) \<Longrightarrow> invh s' \<Longrightarrow> bheight s' = bheight s \<Longrightarrow>
     invh (plug fs s') \<and> bheight (plug fs s') = bheight (plug fs s)"
proof (induction fs arbitrary: s s')
  case Nil
  then show ?case by simp
next
  case (Cons f fs)
  have "invh (Some (fill f s))"
    using Cons.prems(1) invh_plug_sub[of fs "Some (fill f s)"] by simp
  then have "invh (Some (fill f s'))" "bheight (Some (fill f s')) = bheight (Some (fill f s))"
    using Cons.prems(2,3) by (auto simp: invh_fill bheight_fill split: side_t.splits)
  then show ?case
    using Cons.IH[of "Some (fill f s)" "Some (fill f s')"] Cons.prems(1) by simp
qed

lemma invc_plug:
  "invc (plug fs s) \<Longrightarrow> invc s' \<Longrightarrow> (red_ptr s' \<Longrightarrow> red_ptr s) \<Longrightarrow> invc (plug fs s')"
proof (induction fs arbitrary: s s')
  case Nil
  then show ?case by simp
next
  case (Cons f fs)
  have "invc (Some (fill f s))"
    using Cons.prems(1) invc_plug_sub[of fs "Some (fill f s)"] by simp
  then have "invc (Some (fill f s'))"
    using Cons.prems(2,3) by (auto simp: invc_fill)
  then show ?case
    using Cons.IH[of "Some (fill f s)" "Some (fill f s')"] Cons.prems(1) by simp
qed

lemma invc_plug_black:
  "invc (plug (f # fs) s) \<Longrightarrow> invc s' \<Longrightarrow> fcolor f = BLACK \<Longrightarrow> invc (plug (f # fs) s')"
proof -
  assume a: "invc (plug (f # fs) s)" "invc s'" "fcolor f = BLACK"
  have "invc (Some (fill f s))"
    using a(1) invc_plug_sub[of fs "Some (fill f s)"] by simp
  then have "invc (Some (fill f s'))"
    using a(2,3) by (auto simp: invc_fill)
  then show ?thesis
    using invc_plug[of fs "Some (fill f s)" "Some (fill f s')"] a(1) by simp
qed

lemma red_plug: "fs \<noteq> [] \<Longrightarrow> red_ptr (plug fs s) = (fcolor (last fs) = RED)"
  by (cases fs rule: rev_cases) (auto simp: plug_append)

lemma frames_for_all2: "list_all2 (\<lambda>f a. f = frame_of (fside f) a) (frames_for k p) p"
  by (induction p arbitrary: k) (auto simp: frame_of_def)

lemma is_red_Node [simp]: "is_red (Node kvp l r c) = (c = RED)"
  by (simp add: is_red_def)

lemma is_black_Node [simp]: "is_black (Node kvp l r c) = (c = BLACK)"
  by (simp add: is_black_def)

lemma get_key_Node [simp]: "get_key (Node kvp l r c) = fst kvp"
  by (simp add: get_key_def)

lemma not_RED [simp]: "(c \<noteq> RED) = (c = BLACK)"
  by (cases c) auto

lemma not_BLACK [simp]: "(c \<noteq> BLACK) = (c = RED)"
  by (cases c) auto

lemma rebuild_inv:
  assumes "list_all2 (\<lambda>f a. f = frame_of (fside f) a) fs p"
    and "bst (plug fs (Some rt))"
    and "invc (plug fs s)" and "invh (plug fs s)" and "\<not> red_ptr (plug fs s)"
    and "invc (Some rt)" and "invh (Some rt)" and "bheight (Some rt) = bheight s"
    and "is_red rt \<Longrightarrow> red_ptr s \<or> (fs \<noteq> [] \<and> fcolor (hd fs) = BLACK)"
  shows "Some (clone_path p rt) = plug fs (Some rt) \<and> invc (plug fs (Some rt)) \<and>
         invh (plug fs (Some rt)) \<and> \<not> red_ptr (plug fs (Some rt)) \<and>
         bheight (plug fs (Some rt)) = bheight (plug fs s)"
proof -
  have eq: "Some (clone_path p rt) = plug fs (Some rt)"
    using frames_for_eq[OF assms(1,2)] clone_path_plug[of p rt] by simp
  have h: "invh (plug fs (Some rt)) \<and> bheight (plug fs (Some rt)) = bheight (plug fs s)"
    using invh_plug[OF assms(4,7,8)] .
  have c: "invc (plug fs (Some rt))"
  proof (cases "is_red rt \<and> \<not> red_ptr s")
    case True
    then obtain f fs' where fs: "fs = f # fs'" "fcolor f = BLACK"
      using assms(9) by (cases fs) auto
    show ?thesis
      using invc_plug_black[of f fs' s "Some rt"] assms(3,6) fs by simp
  next
    case False
    then show ?thesis
      using invc_plug[OF assms(3,6)] by auto
  qed
  have r: "\<not> red_ptr (plug fs (Some rt))"
  proof (cases "fs = []")
    case True
    then show ?thesis using assms(5,9) by auto
  next
    case False
    then show ?thesis using red_plug[OF False, of s] red_plug[OF False, of "Some rt"] assms(5) by simp
  qed
  show ?thesis using eq h c r by simp
qed

section \<open>Insertion\<close>

lemma red_ptr_Node: "red_ptr t \<Longrightarrow> \<exists>kvp l r. t = Some (Node kvp l r RED)"
  by (cases t rule: foreach_ptr.cases) auto

lemma insert_fix_inv:
  "bst (plug (frames_for (get_key n) p) (Some n)) \<Longrightarrow>
   invc (plug (frames_for (get_key n) p) s) \<Longrightarrow>
   invh (plug (frames_for (get_key n) p) s) \<Longrightarrow>
   \<not> red_ptr (plug (frames_for (get_key n) p) s) \<Longrightarrow>
   is_red n \<Longrightarrow> invc (Some n) \<Longrightarrow> invh (Some n) \<Longrightarrow> bheight (Some n) = bheight s \<Longrightarrow>
   \<exists>r. insert_fix p n = Inr r \<and> invc (Some r) \<and> invh (Some r) \<and> \<not> is_red r \<and>
       foreach_ptr (Some r) = foreach_ptr (plug (frames_for (get_key n) p) (Some n))"
proof (induction p arbitrary: n s rule: induct_list012)
  case 1
  then show ?case by (cases n) auto
next
  case (2 parent)
  then show ?case
    by (cases n; cases parent) (auto simp: dirk_def frame_of_def)
next
  case (3 parent gp p')
  let ?f1 = "frame_of (dirk (get_key n) parent) parent"
  let ?f2 = "frame_of (dirk (get_key parent) gp) gp"
  let ?fs = "frames_for (get_key gp) p'"
  have fr: "frames_for (get_key n) (parent # gp # p') = ?f1 # ?f2 # ?fs" by simp
  show ?case
  proof (cases "is_black parent")
    case True
    have b: "fcolor ?f1 = BLACK" using True by (simp add: frame_of_def is_black_def)
    have "Some (clone_path (parent # gp # p') n) = plug (?f1 # ?f2 # ?fs) (Some n) \<and>
          invc (plug (?f1 # ?f2 # ?fs) (Some n)) \<and> invh (plug (?f1 # ?f2 # ?fs) (Some n)) \<and>
          \<not> red_ptr (plug (?f1 # ?f2 # ?fs) (Some n)) \<and>
          bheight (plug (?f1 # ?f2 # ?fs) (Some n)) = bheight (plug (?f1 # ?f2 # ?fs) s)"
      apply (rule rebuild_inv[where p = "parent # gp # p'"])
      using frames_for_all2[of "get_key n" "parent # gp # p'"] "3.prems" b
      by (simp_all del: plug.simps frames_for.simps add: fr)
    then show ?thesis
      using True by (metis fr insert_fix.simps(3) red_ptr.simps(2))
  next
    case False
    then have pred: "fcolor ?f1 = RED" by (simp add: frame_of_def is_black_def)
    let ?S = "Some (fill ?f2 (Some (fill ?f1 s)))"
    have S: "plug (frames_for (get_key n) (parent # gp # p')) s = plug ?fs ?S" by simp
    have cS: "invc ?S" and hS: "invh ?S"
      using "3.prems"(2,3) invc_plug_sub[of ?fs ?S] invh_plug_sub[of ?fs ?S] by (simp_all del: fill_frame_of)
    have bN: "bst (plug ?fs (Some (fill ?f2 (Some (fill ?f1 (Some n))))))"
      using "3.prems"(1) by (simp del: fill_frame_of)
    then have bN2: "bst (Some (fill ?f2 (Some (fill ?f1 (Some n)))))"
      by (rule bst_plug_sub)
    obtain pkv pl pr pc where P: "parent = Node pkv pl pr pc" by (cases parent)
    obtain gkv gl gr gc where G: "gp = Node gkv gl gr gc" by (cases gp)
    obtain nkv nl nr nc where N: "n = Node nkv nl nr nc" by (cases n)
    have pc: "pc = RED" using False P by simp
    have nc: "nc = RED" using "3.prems"(5) N by simp
    have gc: "gc = BLACK"
      using cS P G pc by (auto simp: frame_of_def dirk_def split: if_splits)
    let ?uncle = "get_child (opposite (dirk (get_key parent) gp)) gp"
    let ?N = "Some (fill ?f2 (Some (fill ?f1 (Some n))))"
    show ?thesis
    proof (cases "red_ptr ?uncle")
      case True
      then obtain ukv ul ur uc where U: "?uncle = Some (Node ukv ul ur uc)" and uc: "uc = RED"
        using red_ptr_Node[of ?uncle] by auto
      define new_gp where "new_gp =
        set_child (opposite (dirk (get_key parent) gp)) (Some (set_color BLACK (Node ukv ul ur uc)))
          (set_child (dirk (get_key parent) gp)
             (Some (set_child (dirk (get_key n) parent) (Some n) (set_color BLACK parent)))
             (set_color RED gp))"
      have step: "insert_fix (parent # gp # p') n = insert_fix p' new_gp"
        using False True U by (simp add: new_gp_def dirk_def Let_def)
      have k: "get_key new_gp = get_key gp" by (simp add: new_gp_def)
      have fe: "foreach_ptr (Some new_gp) = foreach_ptr ?N"
        using U P G N by (auto simp: new_gp_def frame_of_def dirk_def split: if_splits)
      have 1: "bst (plug (frames_for (get_key new_gp) p') (Some new_gp))"
        using bN bst_plug_cong[of "Some new_gp" ?N ?fs] fe k by simp
      have 5: "is_red new_gp" using G by (auto simp: new_gp_def dirk_def)
      have 6: "invc (Some new_gp)"
        using cS "3.prems"(6) U P G N by (auto simp: new_gp_def frame_of_def dirk_def split: if_splits)
      have 7: "invh (Some new_gp) \<and> bheight (Some new_gp) = bheight ?S"
        using hS "3.prems"(7,8) U P G N pc gc uc
        by (auto simp: new_gp_def frame_of_def dirk_def split: if_splits)
      have "\<exists>r. insert_fix p' new_gp = Inr r \<and> invc (Some r) \<and> invh (Some r) \<and> \<not> is_red r \<and>
         foreach_ptr (Some r) = foreach_ptr (plug (frames_for (get_key new_gp) p') (Some new_gp))"
        apply (rule "3.IH"(1)[of new_gp ?S])
        using 1 5 6 7 "3.prems"(2,3,4) k by (simp_all del: fill_frame_of)
      then show ?thesis
        using step fe k by (simp add: foreach_plug del: fill_frame_of)
    next
      case False
      define ps where "ps = dirk (get_key parent) gp"
      define ns where "ns = dirk (get_key n) parent"
      define rt where "rt =
        (if ps \<noteq> ns then
           set_color BLACK
             (set_child ns
                (Some (set_color RED (set_child ps (get_child ns n) gp)))
                (set_child ps (Some (set_child ns (get_child ps n) parent)) n))
         else
           set_color BLACK
             (set_child ps (Some n)
                (set_child (opposite ps)
                   (Some (set_color RED (set_child ps (get_child (opposite ps) parent) gp)))
                   parent)))"
      have step: "insert_fix (parent # gp # p') n = Inr (clone_path p' rt)"
        using False \<open>\<not> is_black parent\<close>
        by (simp add: rt_def ps_def ns_def dirk_def Let_def)
      have unc: "\<not> red_ptr (get_child (opposite ps) gp)"
        using False by (simp add: ps_def)
      have fe: "foreach_ptr (Some rt) = foreach_ptr ?N"
        using P G N unfolding rt_def ps_def[symmetric] ns_def[symmetric]
        by (cases ps; cases ns) (auto simp: frame_of_def)
      have 2: "bst (plug ?fs (Some rt))"
        using bN bst_plug_cong[of "Some rt" ?N ?fs] fe by simp
      have 6: "invc (Some rt)"
        using cS "3.prems"(6) unc P G N pc nc gc
        unfolding rt_def ps_def[symmetric] ns_def[symmetric]
        by (cases ps; cases ns) (auto simp: frame_of_def)
      have 7: "invh (Some rt) \<and> bheight (Some rt) = bheight ?S"
        using hS "3.prems"(7,8) P G N pc nc gc
        unfolding rt_def ps_def[symmetric] ns_def[symmetric]
        by (cases ps; cases ns) (auto simp: frame_of_def)
      have 9: "\<not> is_red rt"
        using P G N unfolding rt_def by (cases ps; cases ns) auto
      have "Some (clone_path p' rt) = plug ?fs (Some rt) \<and> invc (plug ?fs (Some rt)) \<and>
         invh (plug ?fs (Some rt)) \<and> \<not> red_ptr (plug ?fs (Some rt)) \<and>
         bheight (plug ?fs (Some rt)) = bheight (plug ?fs ?S)"
        apply (rule rebuild_inv[where p = p'])
        using frames_for_all2[of "get_key gp" p'] 2 6 7 9 "3.prems"(2,3,4)
        by (simp_all del: fill_frame_of)
      then show ?thesis
        using step fe by (simp add: foreach_plug del: fill_frame_of) (metis red_ptr.simps(2))
    qed
  qed
qed

lemma kframes_Cons [simp]: "kframes k (a # p) = frame_of (dirk k a) a # kframes k p"
  by (simp add: kframes_def)

lemma kframes_Nil [simp]: "kframes k [] = []"
  by (simp add: kframes_def)

lemma pre_post_frame_of:
  "pre (frame_of sd a # fs) = (case sd of LEFT \<Rightarrow> pre fs | RIGHT \<Rightarrow> pre fs @ foreach_ptr (left_child a) @ [kvp_of a])"
  "post (frame_of sd a # fs) = (case sd of LEFT \<Rightarrow> kvp_of a # foreach_ptr (right_child a) @ post fs | RIGHT \<Rightarrow> post fs)"
  by (cases sd; simp add: frame_of_def)+

lemma path_bounds:
  "bst (plug (kframes k p) s) \<Longrightarrow> \<forall>a\<in>set p. get_key a \<noteq> k \<Longrightarrow>
     (\<forall>x\<in>fst ` set (pre (kframes k p)). x < k) \<and> (\<forall>y\<in>fst ` set (post (kframes k p)). k < y)"
proof (induction p arbitrary: s)
  case Nil
  show ?case by simp
next
  case (Cons a p)
  obtain kv l r c where a: "a = Node kv l r c" by (cases a)
  have sub: "bst (Some (fill (frame_of (dirk k a) a) s))"
    using Cons.prems(1) bst_plug_sub[of "kframes k p" "Some (fill (frame_of (dirk k a) a) s)"]
    by (simp del: fill_frame_of)
  have IH: "(\<forall>x\<in>fst ` set (pre (kframes k p)). x < k) \<and> (\<forall>y\<in>fst ` set (post (kframes k p)). k < y)"
    using Cons.IH[of "Some (fill (frame_of (dirk k a) a) s)"] Cons.prems by (simp del: fill_frame_of)
  have ne: "fst kv \<noteq> k" using Cons.prems(2) a by simp
  show ?case
  proof (cases "fst kv > k")
    case True
    then have d: "dirk k a = LEFT" by (simp add: dirk_def a)
    have "\<forall>y\<in>keys r. k < y" using sub d a True by (auto simp: frame_of_def)
    then show ?thesis using IH d a True by (auto simp: pre_post_frame_of keys_def)
  next
    case False
    then have d: "dirk k a = RIGHT" by (simp add: dirk_def a)
    have lt: "fst kv < k" using False ne by simp
    have "\<forall>y\<in>keys l. y < k" using sub d a lt by (auto simp: frame_of_def)
    then show ?thesis using IH d a lt by (auto simp: pre_post_frame_of keys_def)
  qed
qed

lemma filter_split:
  "\<forall>x\<in>set a. fst x < (k::'k::linorder) \<Longrightarrow> \<forall>y\<in>set b. k < fst y \<Longrightarrow>
     filter (\<lambda>x. fst x < k) (a @ b) = a \<and> filter (\<lambda>x. k < fst x) (a @ b) = b"
  by (auto simp: filter_empty_conv filter_id_conv; fastforce)

lemma sub_None_iff: "bst t \<Longrightarrow> sub k t = None \<longleftrightarrow> k \<notin> keys t"
  by (induction k t rule: sub.induct) auto

lemma length_anc: "length (anc k t) \<le> length (trail k t)"
  by (simp add: trail_sub_anc split: option.splits)

lemma insert_new:
  assumes "rbt t" and "height t \<le> path_capacity" and "k \<notin> keys t"
  shows "\<exists>r. insert_imp \<lparr>m_root = t, m_size = sz\<rparr> (k, v) = Inr \<lparr>m_root = Some r, m_size = sz + 1\<rparr> \<and>
     rbt (Some r) \<and> length (foreach_ptr (Some r)) = Suc (length (foreach_ptr t)) \<and>
     foreach_ptr (Some r) =
       filter (\<lambda>x. fst x < k) (foreach_ptr t) @ [(k, v)] @ filter (\<lambda>x. k < fst x) (foreach_ptr t)"
proof -
  let ?p = "anc k t"
  let ?fs = "kframes k ?p"
  let ?n = "Node (k, v) None None RED"
  have bt: "bst t" "invc t" "invh t" "\<not> red_ptr t" using assms(1) by (simp_all add: rbt_def)
  have sn: "sub k t = None" using bt(1) assms(3) by (simp add: sub_None_iff)
  have tr: "trail k t = ?p" by (simp add: trail_sub_anc sn)
  have T: "plug ?fs None = t" using plug_anc[of k t] sn by simp
  have len: "length (trail k t) \<le> path_capacity"
    using length_trail[of k t] assms(2) by simp
  have find: "find_path t [] k = Inr (?p, False)"
    by (simp add: find_path_trail len sn tr[symmetric])
  have bnd: "(\<forall>x\<in>fst ` set (pre ?fs). x < k) \<and> (\<forall>y\<in>fst ` set (post ?fs). k < y)"
    by (rule path_bounds[of k ?p None]) (simp_all add: T bt anc_keys)
  have ft: "foreach_ptr t = pre ?fs @ post ?fs"
    using foreach_plug[of ?fs None] T by simp
  have bn: "bst (plug ?fs (Some ?n))"
    using bnd bt(1) T by (subst bst_plug_iff) (auto)
  have ff: "frames_for k ?p = ?fs"
    using frames_for_kframes[OF bn] by simp
  have fl: "filter (\<lambda>x. fst x < k) (foreach_ptr t) = pre ?fs \<and> filter (\<lambda>x. k < fst x) (foreach_ptr t) = post ?fs"
    unfolding ft by (rule filter_split) (use bnd in auto)
  show ?thesis
  proof (cases t)
    case None
    then show ?thesis
      by (simp add: insert_imp_def insert_imp_p_def rbt_def)
  next
    case (Some a)
    have "\<exists>r. insert_fix ?p ?n = Inr r \<and> invc (Some r) \<and> invh (Some r) \<and> \<not> is_red r \<and>
       foreach_ptr (Some r) = foreach_ptr (plug (frames_for (get_key ?n) ?p) (Some ?n))"
      by (rule insert_fix_inv[where s = None]) (simp_all add: ff bn T bt)
    then obtain r where r: "insert_fix ?p ?n = Inr r" "invc (Some r)" "invh (Some r)" "\<not> is_red r"
      "foreach_ptr (Some r) = foreach_ptr (plug ?fs (Some ?n))"
      using ff by auto
    have fr: "foreach_ptr (Some r) = pre ?fs @ [(k, v)] @ post ?fs"
      using r(5) by (simp add: foreach_plug)
    have "bst (Some r)"
      using bn r(5) by (simp add: bst_def)
    moreover have "length (foreach_ptr (Some r)) = Suc (length (foreach_ptr t))"
      unfolding fr ft by simp
    ultimately show ?thesis
      using find r Some fr fl by (simp add: insert_imp_def insert_imp_p_def rbt_def)
  qed
qed

lemma filter_split3:
  "\<forall>x\<in>set a. fst x < (k::'k::linorder) \<Longrightarrow> fst m = k \<Longrightarrow> \<forall>y\<in>set b. k < fst y \<Longrightarrow>
     filter (\<lambda>x. fst x < k) (a @ m # b) = a \<and> filter (\<lambda>x. k < fst x) (a @ m # b) = b"
  by (auto simp: filter_empty_conv filter_id_conv; fastforce)

lemma sub_Some_plug:
  assumes "sub k t = Some n"
  shows "trail k t = n # anc k t" and "plug (kframes k (anc k t)) (Some n) = t" and "get_key n = k"
  using assms plug_anc[of k t] sub_key[OF assms] by (simp_all add: trail_sub_anc)

lemma insert_replace:
  assumes "rbt t" and "height t \<le> path_capacity" and "k \<in> keys t"
  shows "\<exists>r. insert_imp \<lparr>m_root = t, m_size = sz\<rparr> (k, v) = Inr \<lparr>m_root = Some r, m_size = sz\<rparr> \<and>
     rbt (Some r) \<and> length (foreach_ptr (Some r)) = length (foreach_ptr t) \<and>
     foreach_ptr (Some r) =
       filter (\<lambda>x. fst x < k) (foreach_ptr t) @ [(k, v)] @ filter (\<lambda>x. k < fst x) (foreach_ptr t)"
proof -
  let ?p = "anc k t"
  let ?fs = "kframes k ?p"
  have bt: "bst t" "invc t" "invh t" "\<not> red_ptr t" using assms(1) by (simp_all add: rbt_def)
  obtain n where sn: "sub k t = Some n"
    using bt(1) assms(3) sub_None_iff[of t k] by auto
  obtain kv l r c where n: "n = Node kv l r c" by (cases n)
  have kn: "fst kv = k" using sub_key[OF sn] n by simp
  have tr: "trail k t = n # ?p" and T: "plug ?fs (Some n) = t"
    using sub_Some_plug[OF sn] by simp_all
  have len: "length (trail k t) \<le> path_capacity"
    using length_trail[of k t] assms(2) by simp
  have find: "find_path t [] k = Inr (n # ?p, True)"
    using len by (simp add: find_path_trail sn tr)
  let ?rt = "set_pair (k, v) n"
  have bn0: "bst (Some n)" using bt(1) T bst_plug_sub[of ?fs "Some n"] by simp
  have bnd: "(\<forall>x\<in>fst ` set (pre ?fs). x < k) \<and> (\<forall>y\<in>fst ` set (post ?fs). k < y)"
    by (rule path_bounds[of k ?p "Some n"]) (simp_all add: T bt anc_keys)
  have brt: "bst (plug ?fs (Some ?rt))"
    using bst_plug_cong[of "Some ?rt" "Some n" ?fs] T bt(1) n kn by simp
  have "Some (clone_path ?p ?rt) = plug ?fs (Some ?rt) \<and> invc (plug ?fs (Some ?rt)) \<and>
         invh (plug ?fs (Some ?rt)) \<and> \<not> red_ptr (plug ?fs (Some ?rt)) \<and>
         bheight (plug ?fs (Some ?rt)) = bheight (plug ?fs (Some n))"
    apply (rule rebuild_inv[where p = ?p])
    using kframes_all2[of k ?p] brt T bt invc_plug_sub[of ?fs "Some n"] invh_plug_sub[of ?fs "Some n"] n
    by auto
  then have res: "Some (clone_path ?p ?rt) = plug ?fs (Some ?rt)" "rbt (plug ?fs (Some ?rt))"
    using brt by (simp_all add: rbt_def)
  have ft: "foreach_ptr t = (pre ?fs @ foreach_ptr l) @ kv # (foreach_ptr r @ post ?fs)"
    using foreach_plug[of ?fs "Some n"] T n by simp
  have fl: "filter (\<lambda>x. fst x < k) (foreach_ptr t) = pre ?fs @ foreach_ptr l \<and>
            filter (\<lambda>x. k < fst x) (foreach_ptr t) = foreach_ptr r @ post ?fs"
    unfolding ft
    apply (rule filter_split3)
    using bnd bn0 n kn by (auto simp: keys_def)
  have fr: "foreach_ptr (plug ?fs (Some ?rt)) = (pre ?fs @ foreach_ptr l) @ (k, v) # (foreach_ptr r @ post ?fs)"
    using n by (simp add: foreach_plug)
  have ln: "length (foreach_ptr (plug ?fs (Some ?rt))) = length (foreach_ptr t)"
    unfolding ft fr by simp
  have "insert_imp \<lparr>m_root = t, m_size = sz\<rparr> (k, v) =
      Inr \<lparr>m_root = Some (clone_path ?p ?rt), m_size = sz\<rparr>"
    using find by (simp add: insert_imp_def)
  moreover have "rbt (Some (clone_path ?p ?rt))"
    using res by simp
  moreover have "length (foreach_ptr (Some (clone_path ?p ?rt))) = length (foreach_ptr t)"
    using ln res(1) by simp
  moreover have "foreach_ptr (Some (clone_path ?p ?rt)) =
       filter (\<lambda>x. fst x < k) (foreach_ptr t) @ [(k, v)] @ filter (\<lambda>x. k < fst x) (foreach_ptr t)"
    using fl fr res(1) by simp
  ultimately show ?thesis by blast
qed

lemma map_of_foreach:
  "bst t \<Longrightarrow> map_of (foreach_ptr t) k = map_option (\<lambda>n. snd (kvp_of n)) (sub k t)"
proof (induction k t rule: sub.induct)
  case (1 k)
  show ?case by simp
next
  case (2 k kvp l r c)
  have nl: "k \<notin> keys l \<Longrightarrow> map_of (foreach_ptr l) k = None"
    and nr: "k \<notin> keys r \<Longrightarrow> map_of (foreach_ptr r) k = None"
    by (simp_all add: keys_def map_of_eq_None_iff)
  show ?case
  proof (cases "fst kvp = k")
    case True
    then have "k \<notin> keys l" using "2.prems" by auto
    then show ?thesis using True nl by (cases kvp) (auto simp: map_add_def)
  next
    case False
    show ?thesis
    proof (cases "fst kvp > k")
      case True
      then have "k \<notin> keys r" using "2.prems" by auto
      then show ?thesis
        using True False nr "2.IH"(1) "2.prems"
        by (cases kvp) (auto simp: map_add_def split: option.splits)
    next
      case False
      then have "k \<notin> keys l" using "2.prems" \<open>fst kvp \<noteq> k\<close> by auto
      then show ?thesis
        using False \<open>fst kvp \<noteq> k\<close> nl "2.IH"(2) "2.prems"
        by (cases kvp) (auto simp: map_add_def split: option.splits)
    qed
  qed
qed

lemma lookup_correct:
  assumes "bst t" and "height t \<le> path_capacity"
  shows "contains \<lparr>m_root = t, m_size = sz\<rparr> k = Inr (k \<in> keys t)"
    and "(\<exists>n p. find_path t [] k = Inr (n # p, True) \<and> get_pair n = (k, v)) \<longleftrightarrow>
           map_of (foreach_ptr t) k = Some v"
proof -
  have len: "length (trail k t) \<le> path_capacity"
    using length_trail[of k t] assms(2) by simp
  show "contains \<lparr>m_root = t, m_size = sz\<rparr> k = Inr (k \<in> keys t)"
    using len sub_None_iff[OF assms(1), of k] by (simp add: contains_def find_path_trail)
  show "(\<exists>n p. find_path t [] k = Inr (n # p, True) \<and> get_pair n = (k, v)) \<longleftrightarrow>
           map_of (foreach_ptr t) k = Some v"
  proof (cases "sub k t")
    case None
    with len map_of_foreach[OF assms(1), of k] show ?thesis
      by (simp add: find_path_trail)
  next
    case (Some n)
    from sub_key[OF Some] have "kvp_of n = (k, snd (kvp_of n))"
      by (cases "kvp_of n") (simp add: get_key_def)
    with Some len map_of_foreach[OF assms(1), of k] show ?thesis
      by (auto simp: find_path_trail trail_sub_anc get_pair_def)
  qed
qed

lemma rbt_height: "invc t \<Longrightarrow> invh t \<Longrightarrow> height t \<le> 2 * bheight t + (if red_ptr t then 1 else 0)"
  by (induction t rule: invh.induct) (auto split: if_splits)

lemma bheight_size: "invh t \<Longrightarrow> 2 ^ bheight t \<le> length (foreach_ptr t) + 1"
  by (induction t rule: invh.induct) auto

lemma rbt_height_capacity:
  assumes "rbt t" and "length (foreach_ptr t) \<le> 2 ^ 64"
  shows "height t \<le> path_capacity"
proof -
  have "(2::nat) ^ bheight t \<le> 2 ^ 64 + 1"
    using bheight_size[of t] assms by (simp add: rbt_def)
  also have "\<dots> < (2::nat) ^ 65" by simp
  finally have "bheight t < 65" by (rule power_less_imp_less_exp[rotated]) simp
  then show ?thesis
    using rbt_height[of t] assms(1) by (simp add: rbt_def path_capacity_def sizeof_size_t_def)
qed

section \<open>Deletion\<close>

lemma deficit_sibling: "deficit parent side \<Longrightarrow> \<exists>sib. get_child (opposite side) parent = Some sib"
  by (cases "get_child (opposite side) parent") (auto simp: deficit_def)

lemma is_black_iff [simp]: "is_black n = (\<not> is_red n)"
  by (cases n) simp

lemma has_red_child_Node [simp]: "has_red_child (Node kvp l r c) = (red_ptr l \<or> red_ptr r)"
  by (simp add: has_red_child_def)

lemma get_color_Node [simp]: "get_color (Node kvp l r c) = c"
  by (simp add: get_color_def)

lemma delete_fixup_1_inv:
  assumes "deficit parent side" and "has_black_sibling_with_red_child parent side = Inr True"
  shows "\<exists>rt. delete_fixup_1 parent side = Inr rt \<and> restored parent side rt"
proof -
  obtain sib where sib: "get_child (opposite side) parent = Some sib"
    using deficit_sibling[OF assms(1)] by auto
  obtain pkv pl pr pc where P: "parent = Node pkv pl pr pc" by (cases parent)
  obtain skv sl sr sc where S: "sib = Node skv sl sr sc" by (cases sib)
  have sc: "sc = BLACK" and rc: "red_ptr sl \<or> red_ptr sr"
    using assms(2) sib S by (auto simp: has_black_sibling_with_red_child_def split: if_splits)
  show ?thesis
  proof (cases "red_ptr (get_child side sib)")
    case True
    then obtain ckv cl cr where C: "get_child side sib = Some (Node ckv cl cr RED)"
      using red_ptr_Node by blast
    show ?thesis
      using assms(1) sib P S sc C
      by (cases side) (auto simp: deficit_def restored_def delete_fixup_1_def Let_def)
  next
    case False
    then have "red_ptr (get_child (opposite side) sib)"
      using rc S by (cases side) auto
    then obtain ckv cl cr where C: "get_child (opposite side) sib = Some (Node ckv cl cr RED)"
      using red_ptr_Node by blast
    show ?thesis
      using assms(1) sib P S sc C False
      by (cases side) (auto simp: deficit_def restored_def delete_fixup_1_def Let_def)
  qed
qed

lemma delete_fixup_2_inv:
  assumes "deficit parent side" and "has_black_sibling_with_black_children parent side = Inr True"
  shows "\<exists>rt. delete_fixup_2 parent side = Inr rt \<and> invc (Some rt) \<and> invh (Some rt) \<and>
           is_black rt \<and> bheight (Some rt) = bheight (get_child (opposite side) parent) \<and>
           foreach_ptr (Some rt) = foreach_ptr (Some parent) \<and>
           get_child side rt = get_child side parent \<and> kvp_of rt = kvp_of parent"
proof -
  obtain sib where sib: "get_child (opposite side) parent = Some sib"
    using deficit_sibling[OF assms(1)] by auto
  obtain pkv pl pr pc where P: "parent = Node pkv pl pr pc" by (cases parent)
  obtain skv sl sr sc where S: "sib = Node skv sl sr sc" by (cases sib)
  have sc: "sc = BLACK" and rc: "\<not> red_ptr sl" "\<not> red_ptr sr"
    using assms(2) sib S by (auto simp: has_black_sibling_with_black_children_def split: if_splits)
  show ?thesis
    using assms(1) sib P S sc rc
    by (cases side) (auto simp: deficit_def delete_fixup_2_def Let_def)
qed

lemma delete_fixup_3_inv:
  assumes "deficit parent side" and "has_black_sibling_with_red_child parent side = Inr False"
    and "has_black_sibling_with_black_children parent side = Inr False"
  shows "\<exists>rt. delete_fixup_3 parent side = Inr rt \<and> restored parent side rt"
proof -
  obtain sib where sib: "get_child (opposite side) parent = Some sib"
    using deficit_sibling[OF assms(1)] by auto
  obtain pkv pl pr pc where P: "parent = Node pkv pl pr pc" by (cases parent)
  obtain skv sl sr sc where S: "sib = Node skv sl sr sc" by (cases sib)
  have sc: "sc = RED"
    using assms(2,3) sib S
    by (auto simp: has_black_sibling_with_black_children_def has_black_sibling_with_red_child_def
          split: if_splits)
  have pc: "pc = BLACK" using assms(1) sib P S sc by (cases side) (auto simp: deficit_def)
  define np where "np = set_child (opposite side) (get_child side sib) (set_color RED parent)"
  define ns where "ns = set_child side (Some np) (set_color (get_color parent) sib)"
  have d: "deficit np side"
    using assms(1) sib P S sc pc by (cases side) (auto simp: deficit_def np_def)
  have f3: "delete_fixup_3 parent side =
     (case has_black_sibling_with_red_child np side of
              Inl e \<Rightarrow> Inl e
            | Inr True \<Rightarrow>
                (case delete_fixup_1 np side of
                   Inl e \<Rightarrow> Inl e
                 | Inr new_parent' \<Rightarrow> Inr (set_child side (Some new_parent') ns))
            | Inr False \<Rightarrow>
                (case has_black_sibling_with_black_children np side of
                   Inl e \<Rightarrow> Inl e
                 | Inr True \<Rightarrow>
                     (case delete_fixup_2 np side of
                        Inl e \<Rightarrow> Inl e
                      | Inr new_parent' \<Rightarrow> Inr (set_child side (Some new_parent') ns))
                 | Inr False \<Rightarrow> Inr ns))"
    unfolding delete_fixup_3_def np_def ns_def Let_def sib by simp
  obtain sib2 where sib2: "get_child (opposite side) np = Some sib2"
    using deficit_sibling[OF d] by auto
  have b2: "\<not> is_red sib2"
    using assms(1) sib sib2 P S sc pc by (cases side) (auto simp: deficit_def np_def)
  show ?thesis
  proof (cases "has_red_child sib2")
    case True
    then have t: "has_black_sibling_with_red_child np side = Inr True"
      using sib2 b2 by (simp add: has_black_sibling_with_red_child_def)
    obtain rt where rt: "delete_fixup_1 np side = Inr rt" "restored np side rt"
      using delete_fixup_1_inv[OF d t] by auto
    show ?thesis
      using rt assms(1) sib sib2 P S sc pc t unfolding f3
      by (cases side; cases rt) (auto simp: deficit_def restored_def np_def ns_def)
  next
    case False
    then have t: "has_black_sibling_with_red_child np side = Inr False"
      "has_black_sibling_with_black_children np side = Inr True"
      using sib2 b2 by (simp_all add: has_black_sibling_with_red_child_def has_black_sibling_with_black_children_def)
    obtain rt where rt: "delete_fixup_2 np side = Inr rt" "invc (Some rt)" "invh (Some rt)"
           "is_black rt" "bheight (Some rt) = bheight (get_child (opposite side) np)"
           "foreach_ptr (Some rt) = foreach_ptr (Some np)"
      using delete_fixup_2_inv[OF d t(2)] by auto
    show ?thesis
      using rt assms(1) sib sib2 P S sc pc t unfolding f3
      by (cases side; cases rt) (auto simp: deficit_def restored_def np_def ns_def)
  qed
qed

declare delete_fixup.simps [simp del]

lemma frame_side_of_key:
  assumes "f = frame_of (fside f) a" and "bst (Some (fill f (Some n)))"
  shows "fside f = dirk (get_key n) a"
proof -
  have key: "fst (fkvp f) = get_key a"
    using assms(1) by (metis frame.sel(2) frame_of_def get_key_def)
  have "get_key n \<in> keys (Some n)"
    by (cases n) simp
  from bst_fill_side[OF assms(2) this]
  show ?thesis by (simp add: dirk_def key)
qed

lemma delete_fixup_inv:
  "list_all2 (\<lambda>f a. f = frame_of (fside f) a) fs p \<Longrightarrow>
   bst (plug fs (Some parent)) \<Longrightarrow>
   deficit parent side \<Longrightarrow>
   invc (plug fs s) \<Longrightarrow> invh (plug fs s) \<Longrightarrow> \<not> red_ptr (plug fs s) \<Longrightarrow>
   bheight s = bheight (get_child (opposite side) parent) + (if is_black parent then 1 else 0) \<Longrightarrow>
   red_ptr s = is_red parent \<Longrightarrow>
   \<exists>r. delete_fixup p parent side = Inr r \<and> invc (Some r) \<and> invh (Some r) \<and> \<not> is_red r \<and>
       foreach_ptr (Some r) = foreach_ptr (plug fs (Some parent))"
proof (induction p arbitrary: fs parent side s)
  case Nil
  then have fs: "fs = []" by simp
  obtain sib where sib: "get_child (opposite side) parent = Some sib"
    using deficit_sibling[OF Nil.prems(3)] by auto
  show ?case
  proof (cases "is_red sib")
    case True
    then have t: "has_black_sibling_with_red_child parent side = Inr False"
      "has_black_sibling_with_black_children parent side = Inr False"
      using sib by (simp_all add: has_black_sibling_with_red_child_def has_black_sibling_with_black_children_def)
    obtain rt where rt: "delete_fixup_3 parent side = Inr rt" "restored parent side rt"
      using delete_fixup_3_inv[OF Nil.prems(3) t] by auto
    show ?thesis
      using rt t Nil.prems(6,8) fs by (subst delete_fixup.simps) (auto simp: restored_def)
  next
    case False
    show ?thesis
    proof (cases "has_red_child sib")
      case True
      then have t: "has_black_sibling_with_red_child parent side = Inr True"
        using sib False by (simp add: has_black_sibling_with_red_child_def)
      obtain rt where rt: "delete_fixup_1 parent side = Inr rt" "restored parent side rt"
        using delete_fixup_1_inv[OF Nil.prems(3) t] by auto
      show ?thesis
        using rt t Nil.prems(6,8) fs by (subst delete_fixup.simps) (auto simp: restored_def)
    next
      case nr: False
      then have t: "has_black_sibling_with_red_child parent side = Inr False"
          "has_black_sibling_with_black_children parent side = Inr True"
        using sib False
        by (simp_all add: has_black_sibling_with_red_child_def has_black_sibling_with_black_children_def)
      obtain rt where rt: "delete_fixup_2 parent side = Inr rt" "invc (Some rt)" "invh (Some rt)"
           "is_black rt" "foreach_ptr (Some rt) = foreach_ptr (Some parent)"
        using delete_fixup_2_inv[OF Nil.prems(3) t(2)] by auto
      show ?thesis
        using rt t fs by (subst delete_fixup.simps) auto
    qed
  qed
next
  case (Cons gp p')
  then obtain f fs' where fs: "fs = f # fs'" and f: "f = frame_of (fside f) gp"
    and all2: "list_all2 (\<lambda>f a. f = frame_of (fside f) a) fs' p'"
    by (auto simp: list_all2_Cons2)
  obtain sib where sib: "get_child (opposite side) parent = Some sib"
    using deficit_sibling[OF Cons.prems(3)] by auto
  have terminal: "\<exists>r. Inr (clone_path (gp # p') rt) = Inr r \<and> invc (Some r) \<and> invh (Some r) \<and> \<not> is_red r \<and>
       foreach_ptr (Some r) = foreach_ptr (plug fs (Some parent))"
    if rt: "invc (Some rt)" "invh (Some rt)" "bheight (Some rt) = bheight s"
      "is_red rt \<Longrightarrow> red_ptr s" "foreach_ptr (Some rt) = foreach_ptr (Some parent)" for rt
  proof -
    have b: "bst (plug fs (Some rt))"
      using Cons.prems(2) bst_plug_cong[of "Some rt" "Some parent" fs] rt(5) by simp
    have "Some (clone_path (gp # p') rt) = plug fs (Some rt) \<and> invc (plug fs (Some rt)) \<and>
         invh (plug fs (Some rt)) \<and> \<not> red_ptr (plug fs (Some rt)) \<and>
         bheight (plug fs (Some rt)) = bheight (plug fs s)"
      apply (rule rebuild_inv[where p = "gp # p'"])
      using Cons.prems(1,4,5,6) b rt by auto
    then show ?thesis
      using rt(5) by (simp add: foreach_plug) (metis red_ptr.simps(2))
  qed
  show ?case
  proof (cases "is_red sib")
    case True
    then have t: "has_black_sibling_with_red_child parent side = Inr False"
      "has_black_sibling_with_black_children parent side = Inr False"
      using sib by (simp_all add: has_black_sibling_with_red_child_def has_black_sibling_with_black_children_def)
    obtain rt where rt: "delete_fixup_3 parent side = Inr rt" "restored parent side rt"
      using delete_fixup_3_inv[OF Cons.prems(3) t] by auto
    have "\<exists>r. Inr (clone_path (gp # p') rt) = Inr r \<and> invc (Some r) \<and> invh (Some r) \<and> \<not> is_red r \<and>
       foreach_ptr (Some r) = foreach_ptr (plug fs (Some parent))"
      apply (rule terminal)
      using rt(2) Cons.prems(7,8) by (auto simp: restored_def)
    then show ?thesis
      using rt(1) t by (subst delete_fixup.simps) simp
  next
    case False
    show ?thesis
    proof (cases "has_red_child sib")
      case True
      then have t: "has_black_sibling_with_red_child parent side = Inr True"
        using sib False by (simp add: has_black_sibling_with_red_child_def)
      obtain rt where rt: "delete_fixup_1 parent side = Inr rt" "restored parent side rt"
        using delete_fixup_1_inv[OF Cons.prems(3) t] by auto
      have "\<exists>r. Inr (clone_path (gp # p') rt) = Inr r \<and> invc (Some r) \<and> invh (Some r) \<and> \<not> is_red r \<and>
         foreach_ptr (Some r) = foreach_ptr (plug fs (Some parent))"
        apply (rule terminal)
        using rt(2) Cons.prems(7,8) by (auto simp: restored_def)
      then show ?thesis
        using rt(1) t by (subst delete_fixup.simps) simp
    next
      case nr: False
      then have t: "has_black_sibling_with_red_child parent side = Inr False"
          "has_black_sibling_with_black_children parent side = Inr True"
        using sib False
        by (simp_all add: has_black_sibling_with_red_child_def has_black_sibling_with_black_children_def)
      obtain rt where rt: "delete_fixup_2 parent side = Inr rt" "invc (Some rt)" "invh (Some rt)"
           "is_black rt" "bheight (Some rt) = bheight (get_child (opposite side) parent)"
           "foreach_ptr (Some rt) = foreach_ptr (Some parent)" "kvp_of rt = kvp_of parent"
        using delete_fixup_2_inv[OF Cons.prems(3) t(2)] by auto
      show ?thesis
      proof (cases "is_red parent")
        case True
        have "\<exists>r. Inr (clone_path (gp # p') rt) = Inr r \<and> invc (Some r) \<and> invh (Some r) \<and> \<not> is_red r \<and>
           foreach_ptr (Some r) = foreach_ptr (plug fs (Some parent))"
          apply (rule terminal)
          using rt Cons.prems(7,8) True by auto
        then show ?thesis
          using rt(1) t True by (subst delete_fixup.simps) (simp add: get_color_def is_red_def)
      next
        case pb: False
        let ?ps = "dirk (get_key parent) gp"
        let ?ngp = "set_child ?ps (Some rt) gp"
        let ?S = "Some (fill f s)"
        have step: "delete_fixup (gp # p') parent side = delete_fixup p' ?ngp ?ps"
          using rt(1) t pb
          by (subst delete_fixup.simps) (simp add: get_color_def is_red_def dirk_def Let_def)
        have cS: "invc ?S" and hS: "invh ?S"
          using Cons.prems(4,5) invc_plug_sub[of fs' ?S] invh_plug_sub[of fs' ?S] fs by simp_all
        have bP: "bst (Some (fill f (Some parent)))"
          using Cons.prems(2) bst_plug_sub[of fs' "Some (fill f (Some parent))"] fs by simp
        have side: "fside f = ?ps"
          using frame_side_of_key[OF f bP] .
        have ngp: "?ngp = fill f (Some rt)"
          using f side by (metis fill_frame_of)
        have 2: "bst (plug fs' (Some ?ngp))"
          using Cons.prems(2) bst_plug_cong[of "Some rt" "Some parent" fs] rt(6) fs ngp by simp
        have sibf: "get_child (opposite ?ps) ?ngp = fsibling f" "get_child ?ps ?ngp = Some rt"
          "is_red ?ngp = (fcolor f = RED)"
          unfolding ngp using side by (cases f; cases "fside f"; simp)+
        have 3: "deficit ?ngp ?ps"
          unfolding deficit_def
          using cS hS rt Cons.prems(7) pb
          by (auto simp: invc_fill invh_fill sibf)
        have 7: "bheight ?S = bheight (get_child (opposite ?ps) ?ngp) + (if is_black ?ngp then 1 else 0)"
          unfolding sibf is_black_iff using hS by (auto simp: bheight_fill invh_fill split: side_t.splits)
        have 8: "red_ptr ?S = is_red ?ngp"
          unfolding sibf by simp
        have "\<exists>r. delete_fixup p' ?ngp ?ps = Inr r \<and> invc (Some r) \<and> invh (Some r) \<and> \<not> is_red r \<and>
           foreach_ptr (Some r) = foreach_ptr (plug fs' (Some ?ngp))"
          apply (rule Cons.IH[where s = ?S and fs = fs'])
          using all2 2 3 7 8 Cons.prems(4,5,6) fs by simp_all
        then show ?thesis
          unfolding step using rt(6) fs ngp
          by (simp add: foreach_plug foreach_fill[of f "Some rt"] foreach_fill[of f "Some parent"])
      qed
    qed
  qed
qed

lemma black_bheight_zero: "\<not> red_ptr t \<Longrightarrow> bheight t = 0 \<Longrightarrow> t = None"
  by (cases t rule: bheight.cases) (auto split: if_splits)

lemma bheight_zero:
  "bheight t = 0 \<Longrightarrow> invc t \<Longrightarrow> invh t \<Longrightarrow> t = None \<or> (\<exists>kvp. t = Some (Node kvp None None RED))"
  by (cases t rule: bheight.cases) (auto split: if_splits dest: black_bheight_zero)

lemma filter_remove:
  "\<forall>x\<in>set a. fst x \<noteq> k \<Longrightarrow> fst m = k \<Longrightarrow> \<forall>x\<in>set b. fst x \<noteq> k \<Longrightarrow>
     filter (\<lambda>x. fst x \<noteq> k) (a @ m # b) = a @ b"
  by (auto simp: filter_id_conv)

text \<open>The situation of an erasure: the erased node in its context.\<close>

lemma erase_context:
  assumes "rbt t" and "height t \<le> path_capacity" and "sub k t = Some n"
  shows "find_path t [] k = Inr (n # anc k t, True)"
    and "plug (kframes k (anc k t)) (Some n) = t"
    and "\<forall>x\<in>set (pre (kframes k (anc k t))). fst x < k"
    and "\<forall>x\<in>set (post (kframes k (anc k t))). k < fst x"
    and "get_key n = k"
proof -
  have len: "length (trail k t) \<le> path_capacity"
    using length_trail[of k t] assms(2) by simp
  show "find_path t [] k = Inr (n # anc k t, True)"
    using len sub_Some_plug(1)[OF assms(3)] assms(3) by (simp add: find_path_trail)
  show T: "plug (kframes k (anc k t)) (Some n) = t"
    using sub_Some_plug(2)[OF assms(3)] .
  have "(\<forall>x\<in>fst ` set (pre (kframes k (anc k t))). x < k) \<and>
        (\<forall>y\<in>fst ` set (post (kframes k (anc k t))). k < y)"
    by (rule path_bounds[of k "anc k t" "Some n"]) (use T assms(1) anc_keys in \<open>auto simp: rbt_def\<close>)
  then show "\<forall>x\<in>set (pre (kframes k (anc k t))). fst x < k"
    and "\<forall>x\<in>set (post (kframes k (anc k t))). k < fst x" by auto
  show "get_key n = k" using sub_key[OF assms(3)] .
qed

lemma erase_imp_simple:
  assumes all2: "list_all2 (\<lambda>f a. f = frame_of (fside f) a) fs p0"
    and T: "plug fs (Some n) = t" and rbt: "rbt t"
    and one: "left_child n = None \<or> right_child n = None"
  shows "\<exists>r. erase_imp (n # p0) = Inr r \<and> rbt r \<and>
           foreach_ptr r = pre fs @ foreach_ptr (left_child n) @ foreach_ptr (right_child n) @ post fs"
proof -
  have bt: "bst (plug fs (Some n))" "invc (plug fs (Some n))" "invh (plug fs (Some n))"
    "\<not> red_ptr (plug fs (Some n))"
    using rbt T by (simp_all add: rbt_def)
  have n_inv: "bst (Some n)" "invc (Some n)" "invh (Some n)"
    using bt bst_plug_sub invc_plug_sub invh_plug_sub by blast+
  obtain kv l r c where n: "n = Node kv l r c" by (cases n)
  have promote: "\<exists>r. Inr (Some (clone_path p0 rt)) = Inr r \<and> rbt r \<and>
           foreach_ptr r = pre fs @ foreach_ptr (Some rt) @ post fs"
    if rt: "invc (Some rt)" "invh (Some rt)" "bheight (Some rt) = bheight (Some n)" "\<not> is_red rt"
      "bst (Some rt)" "keys (Some rt) \<subseteq> keys (Some n)" for rt
  proof -
    have b: "bst (plug fs (Some rt))"
      using bst_plug_subset[OF bt(1) rt(5,6)] .
    have "Some (clone_path p0 rt) = plug fs (Some rt) \<and> invc (plug fs (Some rt)) \<and>
         invh (plug fs (Some rt)) \<and> \<not> red_ptr (plug fs (Some rt)) \<and>
         bheight (plug fs (Some rt)) = bheight (plug fs (Some n))"
      apply (rule rebuild_inv[where p = p0])
      using all2 b bt rt by auto
    then show ?thesis
      using b by (simp add: rbt_def foreach_plug)
  qed
  show ?thesis
  proof (cases l)
    case (Some ln)
    then have r: "r = None" using one n by simp
    have "bheight l = 0" using n_inv(3) n r by simp
    then obtain lkv where ln: "ln = Node lkv None None RED"
      using bheight_zero[of l] n_inv(2,3) n Some by auto
    have "\<exists>r. Inr (Some (clone_path p0 (set_color BLACK ln))) = Inr r \<and> rbt r \<and>
           foreach_ptr r = pre fs @ foreach_ptr (Some (set_color BLACK ln)) @ post fs"
      apply (rule promote)
      using n_inv n Some r ln by auto
    then show ?thesis
      using n Some r ln by (simp add: erase_imp_def)
  next
    case None
    show ?thesis
    proof (cases r)
      case (Some rn)
      have "bheight r = 0" using n_inv(3) n None by simp
      then obtain rkv where rn: "rn = Node rkv None None RED"
        using bheight_zero[of r] n_inv(2,3) n Some by auto
      have "\<exists>r. Inr (Some (clone_path p0 (set_color BLACK rn))) = Inr r \<and> rbt r \<and>
           foreach_ptr r = pre fs @ foreach_ptr (Some (set_color BLACK rn)) @ post fs"
        apply (rule promote)
        using n_inv n Some None rn by auto
      then show ?thesis
        using n Some None rn by (simp add: erase_imp_def)
    next
      case rNone: None
      have leaf: "n = Node kv None None c" using n None rNone by simp
      show ?thesis
      proof (cases p0)
        case Nil
        then have "fs = []" using all2 by simp
        then show ?thesis
          using leaf Nil bt(4) by (simp add: erase_imp_def rbt_def)
      next
        case (Cons parent p2)
        then obtain f fs' where fs: "fs = f # fs'" and f: "f = frame_of (fside f) parent"
          and all2': "list_all2 (\<lambda>f a. f = frame_of (fside f) a) fs' p2"
          using all2 by (auto simp: list_all2_Cons2)
        let ?S = "Some (fill f (Some n))"
        let ?np = "fill f None"
        have bS: "bst ?S" and cS: "invc ?S" and hS: "invh ?S"
          using bt fs bst_plug_sub[of fs' ?S] invc_plug_sub[of fs' ?S] invh_plug_sub[of fs' ?S]
          by simp_all
        have side: "fside f = dirk (get_key n) parent"
          using frame_side_of_key[OF f bS] .
        have np: "set_child (dirk (get_key n) parent) None parent = ?np"
          using f side by (metis fill_frame_of)
        have bnp: "bst (plug fs' (Some ?np))"
          using bst_plug_subset[of fs' ?S "Some ?np"] bt(1) fs bS
          by (cases f; cases "fside f") auto
        have fe: "foreach_ptr (Some ?np) = pre [f] @ post [f]"
          using foreach_fill[of f None] by simp
        have pp: "pre fs = pre fs' @ pre [f]" "post fs = post [f] @ post fs'"
          unfolding fs by (cases f; cases "fside f"; simp)+
        show ?thesis
        proof (cases c)
          case RED
          have "Some (clone_path p2 ?np) = plug fs' (Some ?np) \<and> invc (plug fs' (Some ?np)) \<and>
             invh (plug fs' (Some ?np)) \<and> \<not> red_ptr (plug fs' (Some ?np)) \<and>
             bheight (plug fs' (Some ?np)) = bheight (plug fs' ?S)"
            apply (rule rebuild_inv[where p = p2])
            using all2' bnp bt fs cS hS leaf RED
            by (auto simp: invc_fill invh_fill bheight_fill split: side_t.splits)
          then show ?thesis
            using leaf RED Cons np bnp fe pp
            by (simp add: erase_imp_def Let_def rbt_def foreach_plug dirk_def)
        next
          case BLACK
          have d: "deficit ?np (fside f)"
            using cS hS leaf BLACK
            by (cases f; cases "fside f") (auto simp: deficit_def)
          have "\<exists>r. delete_fixup p2 ?np (fside f) = Inr r \<and> invc (Some r) \<and> invh (Some r) \<and>
               \<not> is_red r \<and> foreach_ptr (Some r) = foreach_ptr (plug fs' (Some ?np))"
            apply (rule delete_fixup_inv[where s = ?S and fs = fs'])
            using all2' bnp d bt fs hS leaf BLACK
            by (cases f; cases "fside f"; simp)+
          then obtain r where r: "delete_fixup p2 ?np (fside f) = Inr r" "invc (Some r)"
            "invh (Some r)" "\<not> is_red r" "foreach_ptr (Some r) = foreach_ptr (plug fs' (Some ?np))"
            by auto
          have "bst (Some r)" using bnp r(5) by (simp add: bst_def)
          then show ?thesis
            using leaf BLACK Cons np r fe pp side
            by (simp add: erase_imp_def Let_def rbt_def foreach_plug dirk_def)
        qed
      qed
    qed
  qed
qed

lemma right_descent_rspine:
  "right_descent t p =
     (if t = None \<or> length (rspine t) + length p \<le> path_capacity then Inr (rspine t @ p)
      else Inl Path_overflow)"
  by (induction t p rule: right_descent.induct) (auto simp: push_def)

lemma length_rspine: "length (rspine t) \<le> height t"
  by (induction t rule: rspine.induct) auto

lemma rspine_plug:
  "rspine t = pred # sp \<Longrightarrow>
     t = plug (map (frame_of RIGHT) sp) (Some pred) \<and> right_child pred = None"
proof (induction t arbitrary: sp rule: rspine.induct)
  case 1
  then show ?case by simp
next
  case (2 kvp l r c)
  show ?case
  proof (cases r)
    case None
    then show ?thesis using "2.prems" by auto
  next
    case (Some rn)
    then have "rspine r \<noteq> []" by (cases rn) simp
    then obtain sp' where sp': "rspine r = pred # sp'" "sp = sp' @ [Node kvp l r c]"
      using "2.prems" by (cases "rspine r") auto
    then show ?thesis
      using "2.IH"[of sp'] by (simp add: plug_append frame_of_def)
  qed
qed

lemma height_plug: "length fs + height s \<le> height (plug fs s)"
proof (induction fs arbitrary: s)
  case Nil
  show ?case by simp
next
  case (Cons f fs)
  have "Suc (height s) \<le> height (Some (fill f s))"
    by (cases f; cases "fside f") auto
  then show ?case using Cons[of "Some (fill f s)"] by simp
qed

lemma clone_path_depth_append:
  "clone_path_depth (sp @ rest) n (length rest) = (clone_path sp n, rest)"
proof (induction sp arbitrary: n)
  case Nil
  show ?case by (cases rest) auto
next
  case (Cons a sp)
  then show ?case by simp
qed

lemma clone_path_side_rest: "clone_path_side rest n side (length rest) = Inr (n, rest)"
  by (cases "(rest, n, side, length rest)" rule: clone_path_side.cases) auto

lemma clone_path_side_append:
  "rest \<noteq> [] \<Longrightarrow>
     clone_path_side (a # sp @ rest) n side (length rest) =
       Inr (plug (frame_of side a # frames_for (get_key a) sp) n, rest)"
proof (induction sp arbitrary: a n side)
  case Nil
  then obtain g rest' where "rest = g # rest'" by (cases rest) auto
  then show ?case using clone_path_side_rest[of rest "Some (set_child side n a)"] by simp
next
  case (Cons b sp)
  have "clone_path_side (a # (b # sp) @ rest) n side (length rest) =
        clone_path_side (b # sp @ rest) (Some (set_child side n a)) (dirk (get_key a) b) (length rest)"
    by (simp add: dirk_def)
  then show ?case
    using Cons.IH[OF Cons.prems, of b "Some (set_child side n a)" "dirk (get_key a) b"] by simp
qed

lemma frame_of_fill [simp]: "frame_of (fside f) (fill f s) = f"
  by (cases f; cases "fside f") (auto simp: frame_of_def)

lemma nodes_of_all2: "list_all2 (\<lambda>f a. f = frame_of (fside f) a) fs (nodes_of fs s)"
  by (induction fs arbitrary: s) auto

lemma length_nodes_of [simp]: "length (nodes_of fs s) = length fs"
  by (induction fs arbitrary: s) auto

lemma trail_plug:
  "\<forall>f\<in>set fs. fst (fkvp f) \<noteq> k \<and> fside f = (if fst (fkvp f) > k then LEFT else RIGHT) \<Longrightarrow>
     trail k (plug fs s) = trail k s @ nodes_of fs s"
proof (induction fs arbitrary: s)
  case Nil
  show ?case by simp
next
  case (Cons f fs)
  have "trail k (Some (fill f s)) = trail k s @ [fill f s]"
    using Cons.prems by (cases f; cases "fside f") (auto split: if_splits)
  then show ?case using Cons by simp
qed

lemma sub_plug:
  "\<forall>f\<in>set fs. fst (fkvp f) \<noteq> k \<and> fside f = (if fst (fkvp f) > k then LEFT else RIGHT) \<Longrightarrow>
     sub k (plug fs s) = sub k s"
proof (induction fs arbitrary: s)
  case Nil
  show ?case by simp
next
  case (Cons f fs)
  have "sub k (Some (fill f s)) = sub k s"
    using Cons.prems by (cases f; cases "fside f") (auto split: if_splits)
  then show ?case using Cons by simp
qed

lemma right_frames_all2:
  "list_all2 (\<lambda>f a. f = frame_of (fside f) a) (map (frame_of RIGHT) sp) sp"
  by (induction sp) (auto simp: frame_of_def)

lemma post_right_frames [simp]: "post (map (frame_of RIGHT) sp) = []"
  by (induction sp) (auto simp: frame_of_def)

lemma spine_side_result:
  assumes "bst (plug (map (frame_of RIGHT) sp) (Some pred))"
  shows "clone_path_side (sp @ e # p0) None (if 1 < Suc (length sp) then RIGHT else LEFT)
           (Suc (length p0)) = Inr (plug (map (frame_of RIGHT) sp) None, e # p0)"
proof (cases sp)
  case Nil
  then show ?thesis
    using clone_path_side_rest[where rest = "e # p0" and n = None and side = LEFT] by simp
next
  case (Cons a sp')
  let ?a' = "fill (frame_of RIGHT a) (Some pred)"
  have "bst (plug (map (frame_of RIGHT) sp') (Some ?a'))"
    using assms Cons by (simp del: fill_frame_of)
  from frames_for_eq[OF right_frames_all2 this]
  have "frames_for (get_key a) sp' = map (frame_of RIGHT) sp'" by simp
  then show ?thesis
    using clone_path_side_append[where rest = "e # p0" and a = a and sp = sp' and n = None and side = RIGHT]
      Cons by simp
qed

lemma spine_depth_result:
  assumes "bst (plug (map (frame_of RIGHT) sp) (Some nc))"
  shows "clone_path_depth (sp @ e # p0) nc (Suc (length p0)) = (clone_path sp nc, e # p0)"
    and "Some (clone_path sp nc) = plug (map (frame_of RIGHT) sp) (Some nc)"
  using clone_path_depth_append[where sp = sp and rest = "e # p0" and n = nc]
    frames_for_eq[OF right_frames_all2 assms] clone_path_plug[of sp nc] by simp_all

lemma erase_intermediate_easy:
  assumes all2: "list_all2 (\<lambda>f a. f = frame_of (fside f) a) fs p0"
    and T: "plug fs (Some E) = t" and rbt: "rbt t" and cap: "height t \<le> path_capacity"
    and E: "E = Node ekv (Some L) (Some R) ec"
    and rs: "rspine (Some L) = pred # sp"
    and easy: "is_red pred \<or> left_child pred \<noteq> None"
  shows "\<exists>r. erase_intermediate_node (E # p0) = Inr r \<and> rbt (Some r) \<and>
           foreach_ptr (Some r) = pre fs @ foreach_ptr (Some L) @ foreach_ptr (Some R) @ post fs"
proof -
  let ?RS = "map (frame_of RIGHT) sp"
  have bt: "bst (plug fs (Some E))" "invc (plug fs (Some E))" "invh (plug fs (Some E))"
    "\<not> red_ptr (plug fs (Some E))"
    using rbt T by (simp_all add: rbt_def)
  have E_inv: "bst (Some E)" "invc (Some E)" "invh (Some E)"
    using bt bst_plug_sub invc_plug_sub invh_plug_sub by blast+
  have Lp: "Some L = plug ?RS (Some pred)" and rc: "right_child pred = None"
    using rspine_plug[OF rs] by simp_all
  have L_inv: "bst (plug ?RS (Some pred))" "invc (plug ?RS (Some pred))" "invh (plug ?RS (Some pred))"
    using E_inv E Lp by auto
  have P_inv: "bst (Some pred)" "invc (Some pred)" "invh (Some pred)"
    using L_inv bst_plug_sub invc_plug_sub invh_plug_sub by blast+
  obtain pkv pl pc where P: "pred = Node pkv pl None pc"
    using rc by (cases pred) auto
  have len: "length p0 = length fs" using all2 by (simp add: list_all2_lengthD)
  have "length fs + height (Some E) \<le> path_capacity"
    using height_plug[of fs "Some E"] T cap by simp
  then have hcap: "length (rspine (Some L)) + length (E # p0) \<le> path_capacity"
    using length_rspine[of "Some L"] E len by simp
  have fp: "find_predecessor (E # p0) = Inr (pred # sp @ E # p0)"
    using hcap rs E by (simp add: find_predecessor_def right_descent_rspine)
  have fL: "foreach_ptr (Some L) = pre ?RS @ foreach_ptr pl @ [pkv]"
    using Lp P by (simp add: foreach_plug)
  define Y where "Y = (case pl of None \<Rightarrow> None | Some lc \<Rightarrow> Some (set_color BLACK lc))"
  define X where "X = plug ?RS Y"
  define nn where "nn = Node pkv X (Some R) ec"
  have pl0: "bheight pl = 0" using P_inv(3) P by simp
  have pl_cases: "pl = None \<or> (\<exists>lkv. pl = Some (Node lkv None None RED))"
    using bheight_zero[OF pl0] P_inv(2,3) P by auto
  have pcB: "pl \<noteq> None \<Longrightarrow> pc = BLACK"
    using pl_cases P_inv(2) P by auto
  have plN: "pc = RED \<Longrightarrow> pl = None"
    using pcB by (cases pl) auto
  have Y: "foreach_ptr Y = foreach_ptr pl" "invc Y" "invh Y" "\<not> red_ptr Y"
    "bheight Y = bheight (Some pred)" "bst Y" "keys Y \<subseteq> keys (Some pred)"
    using pl_cases easy P pcB by (auto simp: Y_def)
  have X: "invh X" "bheight X = bheight (Some L)" "invc X" "red_ptr X \<Longrightarrow> red_ptr (Some L)"
    "foreach_ptr (Some L) = foreach_ptr X @ [pkv]" "bst (plug ?RS Y)"
  proof -
    show "invh X" "bheight X = bheight (Some L)"
      using invh_plug[OF L_inv(3) Y(3,5)] Lp by (simp_all add: X_def)
    show "invc X"
      using invc_plug[OF L_inv(2) Y(2)] Y(4) by (simp add: X_def)
    show "red_ptr X \<Longrightarrow> red_ptr (Some L)"
      using red_plug[of ?RS Y] red_plug[of ?RS "Some pred"] Y(4) Lp
      by (cases "?RS = []") (auto simp: X_def)
    show "foreach_ptr (Some L) = foreach_ptr X @ [pkv]"
      using fL Y(1) by (simp add: X_def foreach_plug)
    show "bst (plug ?RS Y)"
      using bst_plug_subset[OF L_inv(1) Y(6,7)] .
  qed
  have nn: "invc (Some nn)" "invh (Some nn)" "bheight (Some nn) = bheight (Some E)"
    "is_red nn = is_red E" "foreach_ptr (Some nn) = foreach_ptr (Some L) @ foreach_ptr (Some R)"
    using X E_inv(2,3) E Lp by (auto simp: nn_def)
  have bnn: "bst (Some nn)" "keys (Some nn) \<subseteq> keys (Some E)"
  proof -
    have "sorted_wrt (<) (map fst (foreach_ptr (Some L) @ ekv # foreach_ptr (Some R)))"
      using E_inv(1) E by (simp add: bst_def)
    then show "bst (Some nn)"
      unfolding bst_def nn(5) by (auto simp: sorted_wrt_append)
    show "keys (Some nn) \<subseteq> keys (Some E)"
      unfolding keys_def nn(5) using E by auto
  qed
  have b: "bst (plug fs (Some nn))"
    using bst_plug_subset[OF bt(1) bnn] .
  have res: "Some (clone_path p0 nn) = plug fs (Some nn) \<and> invc (plug fs (Some nn)) \<and>
         invh (plug fs (Some nn)) \<and> \<not> red_ptr (plug fs (Some nn)) \<and>
         bheight (plug fs (Some nn)) = bheight (plug fs (Some E))"
    apply (rule rebuild_inv[where p = p0])
    using all2 b bt nn by auto
  have comp: "erase_intermediate_node (E # p0) = Inr (clone_path p0 nn)"
  proof (cases pl)
    case None
    then have Yn: "Y = None" by (simp add: Y_def)
    have red: "pc = RED" using easy P None by simp
    have "clone_path_side (sp @ E # p0) None (if 1 < Suc (length sp) then RIGHT else LEFT)
           (Suc (length p0)) = Inr (plug ?RS None, E # p0)"
      by (rule spine_side_result[OF L_inv(1)])
    then show ?thesis
      using fp P None red E Yn
      by (simp add: erase_intermediate_node_def Let_def nn_def X_def pop_def get_color_def)
  next
    case (Some lc)
    then have Ys: "Y = Some (set_color BLACK lc)" by (simp add: Y_def)
    have blk: "pc = BLACK" using pcB Some by simp
    have "clone_path_depth (sp @ E # p0) (set_color BLACK lc) (Suc (length p0)) =
            (clone_path sp (set_color BLACK lc), E # p0)"
      "Some (clone_path sp (set_color BLACK lc)) = plug ?RS (Some (set_color BLACK lc))"
    proof -
      have bY: "bst (plug ?RS (Some (set_color BLACK lc)))" using X(6) Ys by simp
      show "clone_path_depth (sp @ E # p0) (set_color BLACK lc) (Suc (length p0)) =
            (clone_path sp (set_color BLACK lc), E # p0)"
        by (rule spine_depth_result(1)[OF bY])
      show "Some (clone_path sp (set_color BLACK lc)) = plug ?RS (Some (set_color BLACK lc))"
        by (rule spine_depth_result(2)[OF bY])
    qed
    then show ?thesis
      using fp P Some blk E Ys
      by (simp add: erase_intermediate_node_def Let_def nn_def X_def pop_def get_color_def)
  qed
  have eq: "Some (clone_path p0 nn) = plug fs (Some nn)" using res by simp
  have "rbt (Some (clone_path p0 nn))"
    unfolding eq using res b by (simp add: rbt_def)
  moreover have "foreach_ptr (Some (clone_path p0 nn)) =
      pre fs @ foreach_ptr (Some L) @ foreach_ptr (Some R) @ post fs"
    unfolding eq foreach_plug nn(5) by simp
  ultimately show ?thesis
    using comp by simp
qed

lemma trail_hit: "get_key n = k \<Longrightarrow> trail k (Some n) = [n]"
  by (cases n) simp

lemma find_in_plug:
  assumes b: "bst (plug fs (Some n))" and len: "Suc (length fs) \<le> path_capacity"
  shows "\<exists>m. find_path (plug fs (Some n)) [] (get_key n) = Inr (n # nodes_of fs (Some n), m)"
proof -
  have "get_key n \<in> keys (Some n)" by (cases n) simp
  then have sides: "\<forall>f\<in>set fs. fst (fkvp f) \<noteq> get_key n \<and>
      fside f = (if fst (fkvp f) > get_key n then LEFT else RIGHT)"
    using bst_plug_sides[OF b] by blast
  have "trail (get_key n) (plug fs (Some n)) = n # nodes_of fs (Some n)"
    using trail_plug[OF sides, of "Some n"] trail_hit[of n] by simp
  then show ?thesis
    using len by (simp add: find_path_trail)
qed

lemma erase_intermediate_hard:
  assumes all2: "list_all2 (\<lambda>f a. f = frame_of (fside f) a) fs p0"
    and T: "plug fs (Some E) = t" and rbt: "rbt t" and cap: "height t \<le> path_capacity"
    and E: "E = Node ekv (Some L) (Some R) ec"
    and rs: "rspine (Some L) = pred # sp"
    and hard: "\<not> is_red pred" "left_child pred = None"
  shows "\<exists>r. erase_intermediate_node (E # p0) = Inr r \<and> rbt (Some r) \<and>
           foreach_ptr (Some r) = pre fs @ foreach_ptr (Some L) @ foreach_ptr (Some R) @ post fs"
proof -
  let ?RS = "map (frame_of RIGHT) sp"
  have bt: "bst (plug fs (Some E))" "invc (plug fs (Some E))" "invh (plug fs (Some E))"
    "\<not> red_ptr (plug fs (Some E))"
    using rbt T by (simp_all add: rbt_def)
  have E_inv: "bst (Some E)" "invc (Some E)" "invh (Some E)"
    using bt bst_plug_sub invc_plug_sub invh_plug_sub by blast+
  have Lp: "Some L = plug ?RS (Some pred)" and rc: "right_child pred = None"
    using rspine_plug[OF rs] by simp_all
  have L_inv: "bst (plug ?RS (Some pred))" "invc (plug ?RS (Some pred))" "invh (plug ?RS (Some pred))"
    using E_inv E Lp by auto
  obtain pkv where P: "pred = Node pkv None None BLACK"
    using rc hard by (cases pred) auto
  have len: "length p0 = length fs" using all2 by (simp add: list_all2_lengthD)
  have "length fs + height (Some E) \<le> path_capacity"
    using height_plug[of fs "Some E"] T cap by simp
  then have hcap: "length (rspine (Some L)) + length (E # p0) \<le> path_capacity"
    using length_rspine[of "Some L"] E len by simp
  have fp: "find_predecessor (E # p0) = Inr (pred # sp @ E # p0)"
    using hcap rs E by (simp add: find_predecessor_def right_descent_rspine)
  define X where "X = plug ?RS None"
  define nn where "nn = Node pkv X (Some R) ec"
  have fL: "foreach_ptr (Some L) = foreach_ptr X @ [pkv]"
    using Lp P by (simp add: foreach_plug X_def)
  have fnn: "foreach_ptr (Some nn) = foreach_ptr (Some L) @ foreach_ptr (Some R)"
    using fL by (simp add: nn_def)
  have bnn: "bst (Some nn)" "keys (Some nn) \<subseteq> keys (Some E)"
  proof -
    have "sorted_wrt (<) (map fst (foreach_ptr (Some L) @ ekv # foreach_ptr (Some R)))"
      using E_inv(1) E by (simp add: bst_def)
    then show "bst (Some nn)"
      unfolding bst_def fnn by (auto simp: sorted_wrt_append)
    show "keys (Some nn) \<subseteq> keys (Some E)"
      unfolding keys_def fnn using E by auto
  qed
  have b: "bst (plug fs (Some nn))"
    using bst_plug_subset[OF bt(1) bnn] .
  have tr: "Some (clone_path p0 nn) = plug fs (Some nn)"
    using frames_for_eq[OF all2 b] clone_path_plug[of p0 nn] by simp
  have side_res: "clone_path_side (sp @ E # p0) None (if 1 < Suc (length sp) then RIGHT else LEFT)
           (Suc (length p0)) = Inr (X, E # p0)"
    unfolding X_def by (rule spine_side_result[OF L_inv(1)])
  let ?EL = "Node pkv (Some L) (Some R) ec"
  have ctx: "invc (plug fs (Some ?EL))" "invh (plug fs (Some ?EL))"
    "\<not> red_ptr (plug fs (Some ?EL))"
  proof -
    show "invc (plug fs (Some ?EL))"
      using invc_plug[OF bt(2), of "Some ?EL"] E_inv(2) E by auto
    show "invh (plug fs (Some ?EL))"
      using invh_plug[OF bt(3), of "Some ?EL"] E_inv(3) E by auto
    show "\<not> red_ptr (plug fs (Some ?EL))"
      using bt(4) red_plug[of fs "Some ?EL"] red_plug[of fs "Some E"] E
      by (cases "fs = []") auto
  qed
  show ?thesis
  proof (cases sp)
    case Nil
    then have XN: "X = None" and LP: "L = pred" using Lp by (simp_all add: X_def)
    have d: "deficit nn LEFT"
      using E_inv(2,3) E LP P by (auto simp: deficit_def nn_def XN)
    have lenn: "Suc (length fs) \<le> path_capacity" using hcap len by simp
    obtain m where find: "find_path (plug fs (Some nn)) [] (get_key nn) =
        Inr (nn # nodes_of fs (Some nn), m)"
      using find_in_plug[OF b lenn] by auto
    have "\<exists>r. delete_fixup (nodes_of fs (Some nn)) nn LEFT = Inr r \<and> invc (Some r) \<and>
        invh (Some r) \<and> \<not> is_red r \<and> foreach_ptr (Some r) = foreach_ptr (plug fs (Some nn))"
      apply (rule delete_fixup_inv[where s = "Some ?EL" and fs = fs])
      using nodes_of_all2 b d ctx E_inv(3) E by (auto simp: nn_def)
    then obtain r where r: "delete_fixup (nodes_of fs (Some nn)) nn LEFT = Inr r" "invc (Some r)"
      "invh (Some r)" "\<not> is_red r" "foreach_ptr (Some r) = foreach_ptr (plug fs (Some nn))"
      by auto
    have comp: "erase_intermediate_node (E # p0) = Inr r"
      using fp P E Nil side_res find r(1) tr XN
      by (simp add: erase_intermediate_node_def Let_def nn_def pop_def get_color_def get_pair_def)
    have "bst (Some r)" using b r(5) by (simp add: bst_def)
    then show ?thesis
      using comp r fnn by (simp add: rbt_def foreach_plug)
  next
    case (Cons Pp sp')
    let ?RS' = "map (frame_of RIGHT) sp'"
    let ?NP = "fill (frame_of RIGHT Pp) None"
    let ?Pp' = "fill (frame_of RIGHT Pp) (Some pred)"
    let ?fE = "Frame LEFT pkv ec (Some R)"
    let ?FS = "?RS' @ ?fE # fs"
    have XP: "X = plug ?RS' (Some ?NP)" by (simp add: X_def Cons del: fill_frame_of)
    have LP: "Some L = plug ?RS' (Some ?Pp')" using Lp Cons by (simp del: fill_frame_of)
    have plugNP: "plug fs (Some nn) = plug ?FS (Some ?NP)"
      by (simp add: plug_append nn_def XP del: fill_frame_of)
    have plugPp: "plug ?FS (Some ?Pp') = plug fs (Some ?EL)"
      using LP by (simp add: plug_append del: fill_frame_of)
    have Pp_inv: "invc (Some ?Pp')" "invh (Some ?Pp')"
      using L_inv(2,3) Lp LP invc_plug_sub[of ?RS' "Some ?Pp'"] invh_plug_sub[of ?RS' "Some ?Pp'"]
      by simp_all
    have d: "deficit ?NP RIGHT"
      using Pp_inv P by (cases Pp) (auto simp: deficit_def frame_of_def)
    have bFS: "bst (plug ?FS (Some ?NP))" using b plugNP by simp
    have lenn: "Suc (length ?FS) \<le> path_capacity" using hcap len rs Cons by simp
    obtain m where find: "find_path (plug ?FS (Some ?NP)) [] (get_key ?NP) =
        Inr (?NP # nodes_of ?FS (Some ?NP), m)"
      using find_in_plug[OF bFS lenn] by auto
    have c: "invc (plug ?FS (Some ?Pp'))" "invh (plug ?FS (Some ?Pp'))"
      "\<not> red_ptr (plug ?FS (Some ?Pp'))"
      using ctx unfolding plugPp by simp_all
    have bh: "bheight (Some ?Pp') =
        bheight (get_child (opposite RIGHT) ?NP) + (if is_black ?NP then 1 else 0)"
      by (cases Pp) (simp add: frame_of_def)
    have rp: "red_ptr (Some ?Pp') = is_red ?NP"
      by (cases Pp) (simp add: frame_of_def)
    have "\<exists>r. delete_fixup (nodes_of ?FS (Some ?NP)) ?NP RIGHT = Inr r \<and> invc (Some r) \<and>
        invh (Some r) \<and> \<not> is_red r \<and> foreach_ptr (Some r) = foreach_ptr (plug ?FS (Some ?NP))"
      by (rule delete_fixup_inv[OF nodes_of_all2 bFS d c bh rp])
    then obtain r where r: "delete_fixup (nodes_of ?FS (Some ?NP)) ?NP RIGHT = Inr r"
      "invc (Some r)" "invh (Some r)" "\<not> is_red r"
      "foreach_ptr (Some r) = foreach_ptr (plug ?FS (Some ?NP))"
      by auto
    have kq: "get_key ?NP = fst (kvp_of Pp)" by (simp add: frame_of_def)
    have comp: "erase_intermediate_node (E # p0) = Inr r"
      using fp P E Cons side_res find r(1) tr plugNP kq
      by (simp add: erase_intermediate_node_def Let_def nn_def pop_def get_color_def get_pair_def
            del: fill_frame_of)
    have "bst (Some r)" using bFS r(5) by (simp add: bst_def)
    then show ?thesis
      using comp r fnn plugNP[symmetric] by (simp add: rbt_def foreach_plug del: fill_frame_of)
  qed
qed

lemma erase_imp_inv:
  assumes all2: "list_all2 (\<lambda>f a. f = frame_of (fside f) a) fs p0"
    and T: "plug fs (Some n) = t" and rbt: "rbt t" and cap: "height t \<le> path_capacity"
  shows "\<exists>r. erase_imp (n # p0) = Inr r \<and> rbt r \<and>
           foreach_ptr r = pre fs @ foreach_ptr (left_child n) @ foreach_ptr (right_child n) @ post fs"
proof (cases "left_child n = None \<or> right_child n = None")
  case True
  show ?thesis by (rule erase_imp_simple[OF all2 T rbt True])
next
  case False
  then obtain kv L R c where n: "n = Node kv (Some L) (Some R) c"
    by (cases n) auto
  obtain pred sp where rs: "rspine (Some L) = pred # sp"
    by (cases L; cases "rspine (Some L)") auto
  have "\<exists>r. erase_intermediate_node (n # p0) = Inr r \<and> rbt (Some r) \<and>
           foreach_ptr (Some r) = pre fs @ foreach_ptr (Some L) @ foreach_ptr (Some R) @ post fs"
  proof (cases "is_red pred \<or> left_child pred \<noteq> None")
    case True
    show ?thesis by (rule erase_intermediate_easy[OF all2 T rbt cap n rs True])
  next
    case False
    then show ?thesis using erase_intermediate_hard[OF all2 T rbt cap n rs] by simp
  qed
  then show ?thesis
    using n by (auto simp: erase_imp_def)
qed

lemma erase_present:
  assumes "rbt t" and "height t \<le> path_capacity" and "k \<in> keys t"
  shows "\<exists>r. erase \<lparr>m_root = t, m_size = sz\<rparr> k = Inr \<lparr>m_root = r, m_size = sz - 1\<rparr> \<and>
           rbt r \<and> Suc (length (foreach_ptr r)) = length (foreach_ptr t) \<and>
           foreach_ptr r = filter (\<lambda>x. fst x \<noteq> k) (foreach_ptr t)"
proof -
  obtain n where sn: "sub k t = Some n"
    using assms(1,3) sub_None_iff[of t k] by (auto simp: rbt_def)
  let ?fs = "kframes k (anc k t)"
  note ctx = erase_context[OF assms(1,2) sn]
  obtain kv l r c where n: "n = Node kv l r c" by (cases n)
  have kn: "fst kv = k" using ctx(5) n by simp
  have bn: "bst (Some n)"
    using ctx(2) assms(1) bst_plug_sub[of ?fs "Some n"] by (simp add: rbt_def)
  obtain res where res: "erase_imp (n # anc k t) = Inr res" "rbt res"
    "foreach_ptr res = pre ?fs @ foreach_ptr (left_child n) @ foreach_ptr (right_child n) @ post ?fs"
    using erase_imp_inv[OF kframes_all2 ctx(2) assms(1,2)] by auto
  have ft: "foreach_ptr t = (pre ?fs @ foreach_ptr l) @ kv # (foreach_ptr r @ post ?fs)"
    using foreach_plug[of ?fs "Some n"] ctx(2) n by simp
  have "filter (\<lambda>x. fst x \<noteq> k) (foreach_ptr t) = (pre ?fs @ foreach_ptr l) @ (foreach_ptr r @ post ?fs)"
    unfolding ft
    apply (rule filter_remove)
    using ctx(3,4) bn n kn by (auto simp: keys_def)
  moreover have "Suc (length (foreach_ptr res)) = length (foreach_ptr t)"
    unfolding ft res(3) using n by simp
  ultimately show ?thesis
    using ctx(1) res n by (simp add: erase_def)
qed

lemma erase_absent:
  assumes "bst (m_root m)" and "height (m_root m) \<le> path_capacity" and "k \<notin> keys (m_root m)"
  shows "erase m k = Inr m"
proof -
  have len: "length (trail k (m_root m)) \<le> path_capacity"
    using length_trail[of k "m_root m"] assms(2) by simp
  show ?thesis
    using len sub_None_iff[OF assms(1), of k] assms(3) by (simp add: erase_def find_path_trail)
qed

section \<open>Insert and erase write to new nodes only\<close>

text \<open>
  \<open>pres b f\<close>: the computation \<open>f\<close>, started in a store of at least \<open>b\<close> nodes, leaves the first
  \<open>b\<close> nodes as they are. It holds of every function of the map, for \<^verbatim>\<open>insert_fix\<close> provided that
  the node it is given (and writes to) is not among the first \<open>b\<close>.
\<close>

lemma pres_ret: "pres b (ret_st x)"
  by (simp add: pres_def ret_st_def)

lemma pres_fail: "pres b (fail_st e)"
  by (simp add: pres_def fail_st_def)

lemma pres_bind:
  fixes f :: "('a, 'k, 'v) st"
  assumes "pres b f" and "\<And>x. pres b (g x)"
  shows "pres b (bind_st f g)"
  unfolding pres_def
proof (intro allI impI)
  fix s :: "('k, 'v) store"
  assume b: "b \<le> length s"
  obtain r s' where fs: "f s = (r, s')" by (cases "f s")
  from assms(1) b fs have 1: "b \<le> length s'" "take b s' = take b s"
    by (auto simp: pres_def dest!: spec[where x = s])
  show "b \<le> length (snd (bind_st f g s)) \<and> take b (snd (bind_st f g s)) = take b s"
  proof (cases r)
    case (Inl e)
    with fs 1 show ?thesis by (simp add: bind_st_def)
  next
    case (Inr x)
    from assms(2)[of x] 1 have "b \<le> length (snd (g x s')) \<and> take b (snd (g x s')) = take b s'"
      by (simp add: pres_def)
    with fs 1 Inr show ?thesis by (simp add: bind_st_def)
  qed
qed

lemma pres_node_at: "pres b (node_at a)"
  by (simp add: pres_def node_at_def)

lemma pres_make_shared: "pres b (make_shared kvp l r c)"
  by (simp add: pres_def make_shared_def)

lemma pres_update: "b \<le> a \<Longrightarrow> pres b (update_st a f)"
  by (simp add: pres_def update_st_def)

lemma pres_bind_fresh:
  fixes f :: "(nat, 'k, 'v) st"
  assumes "\<And>s. case f s of (Inl e, s') \<Rightarrow> s' = s | (Inr x, s') \<Rightarrow> length s \<le> x \<and> (\<exists>c. s' = s @ [c])"
    and "\<And>x. b \<le> x \<Longrightarrow> pres b (g x)"
  shows "pres b (bind_st f g)"
  unfolding pres_def
proof (intro allI impI)
  fix s :: "('k, 'v) store"
  assume b: "b \<le> length s"
  obtain r s' where fs: "f s = (r, s')" by (cases "f s")
  show "b \<le> length (snd (bind_st f g s)) \<and> take b (snd (bind_st f g s)) = take b s"
  proof (cases r)
    case (Inl e)
    with fs assms(1)[of s] b show ?thesis by (simp add: bind_st_def)
  next
    case (Inr x)
    with fs assms(1)[of s] obtain c where x: "length s \<le> x" "s' = s @ [c]" by auto
    with b have "b \<le> x" by simp
    from assms(2)[OF this] x b
    have "b \<le> length (snd (g x s')) \<and> take b (snd (g x s')) = take b s'"
      by (simp add: pres_def)
    with fs x b Inr show ?thesis by (simp add: bind_st_def)
  qed
qed

lemma pres_bind_make_shared:
  "(\<And>x. b \<le> x \<Longrightarrow> pres b (g x)) \<Longrightarrow> pres b (bind_st (make_shared kvp l r c) g)"
  by (rule pres_bind_fresh) (simp_all add: make_shared_def)

lemma pres_bind_clone:
  "(\<And>x. b \<le> x \<Longrightarrow> pres b (g x)) \<Longrightarrow> pres b (bind_st (clone_st a) g)"
  by (rule pres_bind_fresh) (simp_all add: clone_st_def bind_st_def node_at_def make_shared_def)

lemma pres_clone: "pres b (clone_st a)"
  unfolding clone_st_def by (intro pres_bind pres_node_at pres_make_shared)

lemma pres_set_pair: "b \<le> a \<Longrightarrow> pres b (set_pair_st a kvp)"
  by (simp add: set_pair_st_def pres_update)

lemma pres_set_child: "b \<le> a \<Longrightarrow> pres b (set_child_st a side c)"
  by (simp add: set_child_st_def pres_update)

lemma pres_set_color: "b \<le> a \<Longrightarrow> pres b (set_color_st a c)"
  by (simp add: set_color_st_def pres_update)

lemma pres_get_key: "pres b (get_key_st a)"
  unfolding get_key_st_def by (intro pres_bind pres_node_at pres_ret)

lemma pres_get_pair: "pres b (get_pair_st a)"
  unfolding get_pair_st_def by (intro pres_bind pres_node_at pres_ret)

lemma pres_get_child: "pres b (get_child_st a side)"
  unfolding get_child_st_def by (intro pres_bind pres_node_at pres_ret)

lemma pres_get_color: "pres b (get_color_st a)"
  unfolding get_color_st_def by (intro pres_bind pres_node_at pres_ret)

lemma pres_deref: "pres b (deref tag p)"
  by (cases p) (simp_all add: deref_def pres_ret pres_fail)

lemma pres_pop: "pres b (pop_st p)"
  by (cases p) (simp_all add: pop_st_def pres_ret pres_fail)

lemma pres_red_ptr: "pres b (red_ptr_st p)"
  by (cases p) (auto simp: red_ptr_st_def intro!: pres_ret pres_bind pres_get_color)

lemma pres_has_red_child: "pres b (has_red_child_st a)"
  unfolding has_red_child_st_def
  by (auto intro!: pres_bind pres_node_at pres_red_ptr pres_ret)

lemma pres_pure: "pres b (\<lambda>s. (h s, s))"
  by (simp add: pres_def)

lemma pres_find_path: "pres b (find_path_st root_ptr p key)"
  by (simp add: pres_def find_path_st_def)

lemma pres_find_predecessor: "pres b (find_predecessor_st p)"
  unfolding find_predecessor_st_def
  by (cases p) (auto intro!: pres_fail pres_bind pres_get_child pres_pure)

lemma pres_if: "(c \<Longrightarrow> pres b f) \<Longrightarrow> (\<not> c \<Longrightarrow> pres b g) \<Longrightarrow> pres b (if c then f else g)"
  by simp

lemma pres_case_prod: "(\<And>x y. pres b (f x y)) \<Longrightarrow> pres b (case_prod f z)"
  by (cases z) simp

lemma pres_case_list:
  "(z = [] \<Longrightarrow> pres b f) \<Longrightarrow> (\<And>x xs. z = x # xs \<Longrightarrow> pres b (g x xs))
     \<Longrightarrow> pres b (case_list f g z)"
  by (cases z) simp_all

lemma pres_case_option:
  "pres b f \<Longrightarrow> (\<And>x. pres b (g x)) \<Longrightarrow> pres b (case_option f g z)"
  by (cases z) simp_all

lemmas pres_reads =
  pres_get_key pres_get_pair pres_get_child pres_get_color pres_deref pres_pop pres_red_ptr
  pres_has_red_child pres_find_path pres_find_predecessor pres_ret pres_fail

lemmas pres_steps =
  pres_bind_clone pres_bind_make_shared
  pres_bind [OF pres_get_key] pres_bind [OF pres_get_pair] pres_bind [OF pres_get_child]
  pres_bind [OF pres_get_color] pres_bind [OF pres_deref] pres_bind [OF pres_pop]
  pres_bind [OF pres_red_ptr] pres_bind [OF pres_has_red_child] pres_bind [OF pres_find_path]
  pres_bind [OF pres_find_predecessor]
  pres_bind [OF pres_set_pair] pres_bind [OF pres_set_child] pres_bind [OF pres_set_color]
  pres_bind [OF pres_if] pres_bind [OF pres_case_list]
  pres_if pres_case_prod pres_case_list pres_case_option
  pres_set_pair pres_set_child pres_set_color pres_clone pres_make_shared

lemma pres_clone_path: "pres b (clone_path_st p n)"
  by (induction p arbitrary: n) (auto intro!: pres_reads pres_steps)

lemma pres_clone_path_depth: "pres b (clone_path_depth_st p n depth)"
  by (induction p arbitrary: n) (auto intro!: pres_reads pres_steps)

lemma pres_clone_path_side: "pres b (clone_path_side_st p n side depth)"
  by (induction p n side depth rule: clone_path_side_st.induct)
    (auto intro!: pres_reads pres_steps)

lemma pres_insert_fix:
  "b \<le> n \<Longrightarrow> pres b (insert_fix_st p n :: (nat, 'k::linorder, 'v) st)"
proof (induction "length p" arbitrary: p n rule: less_induct)
  case less
  show ?case
  proof (cases p)
    case Nil
    with less.prems show ?thesis by (auto intro!: pres_reads pres_steps)
  next
    case p: (Cons parent p1)
    show ?thesis
    proof (cases p1)
      case Nil
      with p show ?thesis by (auto intro!: pres_reads pres_steps pres_clone_path)
    next
      case (Cons grand_parent p2)
      have ih: "pres b (insert_fix_st p2 m :: (nat, 'k, 'v) st)" if "b \<le> m" for m
        using less.hyps [of p2 m] that p Cons by simp
      from less.prems show ?thesis unfolding p Cons
        by (auto simp: Let_def intro!: pres_reads pres_steps pres_clone_path ih)
    qed
  qed
qed

lemma pres_has_black_sibling_with_red_child:
  "pres b (has_black_sibling_with_red_child_st parent side)"
  unfolding has_black_sibling_with_red_child_st_def
  by (auto intro!: pres_reads pres_steps)

lemma pres_has_black_sibling_with_black_children:
  "pres b (has_black_sibling_with_black_children_st parent side)"
  unfolding has_black_sibling_with_black_children_st_def
  by (auto intro!: pres_reads pres_steps)

lemma pres_delete_fixup_1: "pres b (delete_fixup_1_st parent side)"
  unfolding delete_fixup_1_st_def
  by (auto intro!: pres_reads pres_steps)

lemma pres_delete_fixup_2: "pres b (delete_fixup_2_st parent side)"
  unfolding delete_fixup_2_st_def
  by (auto intro!: pres_reads pres_steps)

lemmas pres_calls =
  pres_bind [OF pres_has_black_sibling_with_red_child]
  pres_bind [OF pres_has_black_sibling_with_black_children]
  pres_bind [OF pres_delete_fixup_1] pres_bind [OF pres_delete_fixup_2]
  pres_bind [OF pres_clone_path] pres_bind [OF pres_clone_path_depth]
  pres_bind [OF pres_clone_path_side]
  pres_clone_path pres_delete_fixup_1 pres_delete_fixup_2

lemma pres_delete_fixup_3: "pres b (delete_fixup_3_st parent side)"
  unfolding delete_fixup_3_st_def
  by (auto intro!: pres_reads pres_steps pres_calls)

declare delete_fixup_st.simps [simp del]

lemma pres_delete_fixup:
  "pres b (delete_fixup_st p parent side :: (nat, 'k::linorder, 'v) st)"
proof (induction "length p" arbitrary: p parent side rule: less_induct)
  case less
  have ih: "pres b (delete_fixup_st q x sd :: (nat, 'k, 'v) st)" if "length q < length p" for q x sd
    using less.hyps [of q x sd] that by simp
  show ?case
    by (subst delete_fixup_st.simps)
      (auto simp: Let_def
        intro!: pres_reads pres_steps pres_calls pres_bind [OF pres_delete_fixup_3] ih)
qed

lemma pres_erase_intermediate_node:
  "pres b (erase_intermediate_node_st p :: (nat, 'k::linorder, 'v) st)"
  unfolding erase_intermediate_node_st_def
  by (auto simp: Let_def intro!: pres_reads pres_steps pres_calls pres_delete_fixup)

lemma pres_erase_imp:
  "pres b (erase_imp_st p :: (nat option, 'k::linorder, 'v) st)"
  unfolding erase_imp_st_def
  by (auto simp: Let_def
      intro!: pres_reads pres_steps pres_calls pres_delete_fixup
        pres_bind [OF pres_erase_intermediate_node] pres_bind [OF pres_delete_fixup])

lemma pres_insert_imp_p:
  "pres b (insert_imp_p_st root_ptr kvp p :: (nat, 'k::linorder, 'v) st)"
  unfolding insert_imp_p_st_def
  by (auto intro!: pres_reads pres_steps pres_insert_fix)

lemma pres_insert:
  "pres b (insert_st m kvp :: (stored_map, 'k::linorder, 'v) st)"
  unfolding insert_st_def insert_imp_st_def
  by (auto intro!: pres_reads pres_steps pres_calls pres_bind [OF pres_insert_imp_p])

lemma pres_erase:
  "pres b (erase_st m key :: (stored_map, 'k::linorder, 'v) st)"
  unfolding erase_st_def
  by (auto intro!: pres_reads pres_steps pres_calls pres_bind [OF pres_erase_imp])

lemma take_length_le:
  assumes "take (length s) s' = s"
  shows "length s \<le> length s'"
proof -
  have "length (take (length s) s') = length s" by (simp only: assms)
  then show ?thesis by simp
qed

lemma take_nth_eq:
  assumes "take (length s) s' = s" and "a < length s"
  shows "s' ! a = s ! a"
proof -
  have "take (length s) s' ! a = s' ! a" using assms(2) by simp
  then show ?thesis by (simp only: assms(1))
qed

lemma repr_extend:
  "repr s p t \<Longrightarrow> take (length s) s' = s \<Longrightarrow> repr s' p t"
proof (induction rule: repr.induct)
  case (repr_None s)
  show ?case by (rule repr.repr_None)
next
  case (repr_Some a s kvp l r c lt rt)
  from repr_Some.prems have len: "length s \<le> length s'"
    by (rule take_length_le)
  from repr_Some.prems repr_Some.hyps(1) have "s' ! a = s ! a"
    by (rule take_nth_eq)
  with repr_Some len show ?case
    by (intro repr.repr_Some [where l = l and r = r]) simp_all
qed

lemma foreach_on_repr:
  "repr s p t \<Longrightarrow> foreach_on s p = Some (Inr (foreach_ptr t))"
proof (induction rule: repr.induct)
  case (repr_None s)
  show ?case by (subst foreach_on.simps) simp
next
  case (repr_Some a s kvp l r c lt rt)
  then show ?case by (subst foreach_on.simps) simp
qed

lemma find_path_on_extend:
  "repr s p t \<Longrightarrow> take (length s) s' = s
     \<Longrightarrow> find_path_on s' p acc key = find_path_on s p acc key"
proof (induction arbitrary: acc rule: repr.induct)
  case (repr_None s)
  show ?case by simp
next
  case (repr_Some a s kvp l r c lt rt)
  from repr_Some.prems have len: "length s \<le> length s'"
    by (rule take_length_le)
  from repr_Some.prems repr_Some.hyps(1) have "s' ! a = s ! a"
    by (rule take_nth_eq)
  with repr_Some len show ?case by simp
qed

lemma find_path_on_range:
  "repr s p t \<Longrightarrow> find_path_on s p acc key = Inr (q, match) \<Longrightarrow> set acc \<subseteq> {..<length s}
     \<Longrightarrow> set q \<subseteq> {..<length s}"
proof (induction arbitrary: acc rule: repr.induct)
  case (repr_None s)
  then show ?case by simp
next
  case (repr_Some a s kvp l r c lt rt)
  then show ?case by (auto split: if_splits)
qed

lemma same_view_extend:
  assumes "repr s (s_root m) t" and "take (length s) s' = s"
  shows "same_view m key s s'"
proof -
  have r': "repr s' (s_root m) t" by (rule repr_extend [OF assms])
  have fp: "find_path_on s' (s_root m) [] key = find_path_on s (s_root m) [] key"
    by (rule find_path_on_extend [OF assms])
  have fe: "foreach_on s' (s_root m) = foreach_on s (s_root m)"
    using foreach_on_repr [OF r'] foreach_on_repr [OF assms(1)] by simp
  have ct: "fst (contains_st m key s') = fst (contains_st m key s)"
    by (simp add: contains_st_def bind_st_def find_path_st_def fp ret_st_def
        split: sum.splits prod.splits)
  have fd: "fst (find_path_st (s_root m) [] key s') = fst (find_path_st (s_root m) [] key s)"
    by (simp add: find_path_st_def fp)
  from assms(2) fe ct fd show ?thesis by (simp add: same_view_def)
qed

lemma pres_take:
  assumes "pres (length s) f"
  shows "take (length s) (snd (f s)) = s"
  using assms by (simp add: pres_def)

inductive_cases repr_NoneE: "repr s None t"
inductive_cases repr_SomeE: "repr s (Some a) t"

lemma repr_functional: "repr s p t \<Longrightarrow> repr s p t' \<Longrightarrow> t = t'"
proof (induction arbitrary: t' rule: repr.induct)
  case (repr_None s)
  then show ?case by (auto elim: repr_NoneE)
next
  case (repr_Some a s kvp l r c lt rt)
  from repr_Some.prems show ?case
  proof (rule repr_SomeE)
    fix kvp' l' r' c' lt' rt'
    assume "t' = Some (Node kvp' lt' rt' c')" "s ! a = HNode kvp' l' r' c'"
      "repr s l' lt'" "repr s r' rt'"
    with repr_Some.hyps(2) repr_Some.IH show ?thesis by simp
  qed
qed


lemma example_repr: "repr example_store (s_root example_receiver) example_tree"
  unfolding example_store_def example_receiver_def example_tree_def
  by (simp, rule repr_Some [where l = "Some 0" and r = "Some 1"], simp, simp,
      rule repr_Some [where l = None and r = None], simp, simp, rule repr_None, rule repr_None,
      rule repr_Some [where l = None and r = None], simp, simp, rule repr_None, rule repr_None)

section \<open>The usage scenario in the store\<close>

lemmas store_ops =
  insert_st_def insert_imp_st_def insert_imp_p_st_def erase_st_def erase_imp_st_def
  erase_intermediate_node_st_def find_path_st_def find_predecessor_st_def
  bind_st_def ret_st_def fail_st_def make_shared_def node_at_def update_st_def clone_st_def
  set_pair_st_def set_child_st_def set_color_st_def get_key_st_def get_child_st_def
  get_color_st_def get_pair_st_def deref_def red_ptr_st_def has_red_child_st_def pop_st_def
  has_black_sibling_with_red_child_st_def has_black_sibling_with_black_children_st_def
  delete_fixup_1_st_def delete_fixup_2_st_def delete_fixup_3_st_def delete_fixup_st.simps
  contains_st_def size_st_def empty_st_def
  path_capacity_def sizeof_size_t_def Let_def eval_nat_numeral

lemma st_scenario_1:
  "insert_st empty_st (10::int, 3.14::real) [] =
     (Inr \<lparr>s_root = Some 0, s_size = 1\<rparr>, take 1 scenario_store)"
  by (simp add: store_ops scenario_store_def)

lemma st_scenario_2:
  "insert_st \<lparr>s_root = Some 0, s_size = 1\<rparr> (15, 6.28) (take 1 scenario_store) =
     (Inr \<lparr>s_root = Some 2, s_size = 2\<rparr>, take 3 scenario_store)"
  by (simp add: store_ops scenario_store_def)

lemma st_scenario_3:
  "insert_st \<lparr>s_root = Some 2, s_size = 2\<rparr> (20, 3.14) (take 3 scenario_store) =
     (Inr \<lparr>s_root = Some 4, s_size = 3\<rparr>, take 6 scenario_store)"
  by (simp add: store_ops scenario_store_def)

lemma st_scenario_4:
  "erase_st \<lparr>s_root = Some 4, s_size = 3\<rparr> 15 (take 6 scenario_store) =
     (Inr \<lparr>s_root = Some 6, s_size = 2\<rparr>, scenario_store)"
  by (simp add: store_ops scenario_store_def)

lemma st_scenario_view4:
  "size_st \<lparr>s_root = Some 6, s_size = 2\<rparr> = 2"
  "contains_st \<lparr>s_root = Some 6, s_size = 2\<rparr> 11 scenario_store = (Inr False, scenario_store)"
  "foreach_on scenario_store (Some 6) = Some (Inr [(10, 3.14), (20, 3.14)])"
  "find_path_st (Some 6) [] 10 scenario_store = (Inr ([6], True), scenario_store)"
  "h_kvp (scenario_store ! 6) = (10, 3.14)"
  by (simp_all add: store_ops scenario_store_def foreach_on.simps)

lemma st_scenario_view3:
  "size_st \<lparr>s_root = Some 4, s_size = 3\<rparr> = 3"
  "contains_st \<lparr>s_root = Some 4, s_size = 3\<rparr> 15 scenario_store = (Inr True, scenario_store)"
  "foreach_on scenario_store (Some 4) = Some (Inr [(10, 3.14), (15, 6.28), (20, 3.14)])"
  by (simp_all add: store_ops scenario_store_def foreach_on.simps)

section \<open>The operations on a map\<close>

lemma map_eta: "\<lparr>m_root = m_root m, m_size = m_size m\<rparr> = (m::('k, 'v) immutable_map)"
  by simp

lemma insert_m_correct:
  assumes "rbt (m_root m)" and "length (foreach m) \<le> 2 ^ 64"
  shows "\<exists>m'. insert_m m (k, v) = Inr m' \<and> rbt (m_root m') \<and>
     foreach m' = filter (\<lambda>x. fst x < k) (foreach m) @ [(k, v)] @ filter (\<lambda>x. k < fst x) (foreach m) \<and>
     m_size m' = (if k \<in> keys (m_root m) then m_size m else m_size m + 1) \<and>
     length (foreach m') = (if k \<in> keys (m_root m) then length (foreach m) else Suc (length (foreach m)))"
proof -
  have h: "height (m_root m) \<le> path_capacity"
    using rbt_height_capacity[of "m_root m"] assms by (simp add: foreach_def)
  show ?thesis
  proof (cases "k \<in> keys (m_root m)")
    case True
    show ?thesis
      using insert_replace[OF assms(1) h True, of "m_size m" v] True
      by (auto simp: insert_m_def foreach_def map_eta)
  next
    case False
    show ?thesis
      using insert_new[OF assms(1) h False, of "m_size m" v] False
      by (auto simp: insert_m_def foreach_def map_eta)
  qed
qed

lemma filter_absent: "k \<notin> fst ` set xs \<Longrightarrow> filter (\<lambda>x. fst x \<noteq> k) xs = xs"
  by (induction xs) auto

lemma erase_correct:
  assumes "rbt (m_root m)" and "length (foreach m) \<le> 2 ^ 64"
  shows "\<exists>m'. erase m k = Inr m' \<and> rbt (m_root m') \<and>
     foreach m' = filter (\<lambda>x. fst x \<noteq> k) (foreach m) \<and>
     m_size m' = (if k \<in> keys (m_root m) then m_size m - 1 else m_size m) \<and>
     length (foreach m) = (if k \<in> keys (m_root m) then Suc (length (foreach m')) else length (foreach m'))"
proof -
  have h: "height (m_root m) \<le> path_capacity"
    using rbt_height_capacity[of "m_root m"] assms by (simp add: foreach_def)
  show ?thesis
  proof (cases "k \<in> keys (m_root m)")
    case True
    show ?thesis
      using erase_present[OF assms(1) h True, of "m_size m"] True
      by (auto simp: foreach_def map_eta)
  next
    case False
    have "erase m k = Inr m"
      using erase_absent[of m k] assms(1) h False by (simp add: rbt_def)
    then show ?thesis
      using False assms(1) filter_absent[of k "foreach_ptr (m_root m)"]
      by (simp add: foreach_def keys_def)
  qed
qed

lemma map_inv_bound: "map_inv m \<Longrightarrow> length (foreach m) < 2 ^ 64"
  using unsigned_less[of "m_size m", where 'a = nat] by (simp add: map_inv_def)

lemma apply_operation_inv:
  assumes "map_inv m" and "Suc (length (foreach m)) < 2 ^ 64"
  shows "\<exists>m'. apply_operation m x = Inr m' \<and> map_inv m' \<and> length (foreach m') \<le> Suc (length (foreach m))"
proof -
  have r: "rbt (m_root m)" and sz: "unat (m_size m) = length (foreach m)"
    and le: "length (foreach m) \<le> 2 ^ 64"
    using assms by (simp_all add: map_inv_def)
  show ?thesis
  proof (cases x)
    case (Insert k v)
    obtain m' where m': "insert_m m (k, v) = Inr m'" "rbt (m_root m')"
      "m_size m' = (if k \<in> keys (m_root m) then m_size m else m_size m + 1)"
      "length (foreach m') = (if k \<in> keys (m_root m) then length (foreach m) else Suc (length (foreach m)))"
      using insert_m_correct[OF r le, of k v] by auto
    have "unat (m_size m + 1) = Suc (unat (m_size m))"
      using assms(2) sz by (simp add: unat_add_lem[THEN iffD1])
    then have "unat (m_size m') = length (foreach m')"
      using m'(3,4) sz by (simp split: if_splits)
    then show ?thesis
      using m' Insert by (auto simp: map_inv_def)
  next
    case (Erase k)
    obtain m' where m': "erase m k = Inr m'" "rbt (m_root m')"
      "m_size m' = (if k \<in> keys (m_root m) then m_size m - 1 else m_size m)"
      "length (foreach m) = (if k \<in> keys (m_root m) then Suc (length (foreach m')) else length (foreach m'))"
      using erase_correct[OF r le, of k] by auto
    have "k \<in> keys (m_root m) \<Longrightarrow> unat (m_size m - 1) = unat (m_size m) - 1"
      using m'(4) sz by (intro unat_minus_one) auto
    then have "unat (m_size m') = length (foreach m')"
      using m'(3,4) sz by (simp split: if_splits)
    then show ?thesis
      using m' Erase by (auto simp: map_inv_def split: if_splits)
  qed
qed

lemma run_inv:
  "map_inv m \<Longrightarrow> length (foreach m) + length ops < 2 ^ 64 \<Longrightarrow>
     \<exists>m'. run m ops = Inr m' \<and> map_inv m' \<and> length (foreach m') \<le> length (foreach m) + length ops"
proof (induction ops arbitrary: m)
  case Nil
  then show ?case by simp
next
  case (Cons x ops)
  obtain m1 where m1: "apply_operation m x = Inr m1" "map_inv m1"
    "length (foreach m1) \<le> Suc (length (foreach m))"
    using apply_operation_inv[of m x] Cons.prems by auto
  obtain m' where "run m1 ops = Inr m'" "map_inv m'"
    "length (foreach m') \<le> length (foreach m1) + length ops"
    using Cons.IH[of m1] m1 Cons.prems by auto
  then show ?case using m1 by auto
qed

lemma map_inv_empty: "map_inv empty_map"
  by (simp add: map_inv_def empty_map_def rbt_def foreach_def)

lemma run_empty:
  assumes "length ops < 2 ^ 64"
  shows "\<exists>m. run empty_map ops = Inr m \<and> map_inv m"
  using run_inv[OF map_inv_empty, of ops] assms by (auto simp: empty_map_def foreach_def)

lemma validate_rbt: "rbt (m_root m) \<Longrightarrow> validate m = Inr ()"
  using validate_ptr_ok[of "m_root m"] by (simp add: validate_def rbt_def)

lemma map_inv_example: "map_inv example_map"
  by (simp add: map_inv_def example_map_def rbt_def foreach_def)

lemma map_of_inserted:
  "map_of (filter (\<lambda>x. fst x < (k::'k::linorder)) xs @ [(k, v)] @ ys) k = Some v"
proof -
  have "map_of (filter (\<lambda>x. fst x < k) xs) k = None"
    by (auto simp: map_of_eq_None_iff)
  then show ?thesis by (simp add: map_add_def)
qed

lemma inserted_key: "k \<in> fst ` set (xs @ [(k, v)] @ ys)"
  by force

lemma sorted_filter_split:
  "sorted_wrt (<) (map fst xs) \<Longrightarrow> k \<notin> fst ` set xs \<Longrightarrow>
     filter (\<lambda>x. fst x < k) xs @ filter (\<lambda>x. (k::'k::linorder) < fst x) xs = xs"
proof (induction xs)
  case Nil
  show ?case by simp
next
  case (Cons x xs)
  show ?case
  proof (cases "fst x < k")
    case True
    then show ?thesis using Cons by auto
  next
    case False
    then have gt: "k < fst x" using Cons.prems(2) by auto
    have "\<forall>y\<in>set xs. k < fst y" using Cons.prems(1) gt by fastforce
    then have "filter (\<lambda>x. fst x < k) xs = []" "filter (\<lambda>x. k < fst x) xs = xs"
      by (auto simp: filter_empty_conv filter_id_conv)
    then show ?thesis using gt by simp
  qed
qed

lemma filter_inserted:
  "filter (\<lambda>x. fst x \<noteq> k) (filter (\<lambda>x. fst x < k) xs @ [(k, v)] @ filter (\<lambda>x. (k::'k::linorder) < fst x) xs) =
     filter (\<lambda>x. fst x < k) xs @ filter (\<lambda>x. k < fst x) xs"
proof -
  have "filter (\<lambda>x. fst x < k \<and> fst x \<noteq> k) xs = filter (\<lambda>x. fst x < k) xs"
    "filter (\<lambda>x. k < fst x \<and> fst x \<noteq> k) xs = filter (\<lambda>x. k < fst x) xs"
    by (rule filter_cong; auto)+
  then show ?thesis by simp
qed

lemma map_inv_lookup:
  assumes "map_inv m"
  shows "contains m k = Inr (k \<in> fst ` set (foreach m))"
    and "(\<exists>n p. find_path (m_root m) [] k = Inr (n # p, True) \<and> get_pair n = (k, v)) \<longleftrightarrow>
           (k, v) \<in> set (foreach m)"
proof -
  have b: "bst (m_root m)" using assms by (simp add: map_inv_def rbt_def)
  have h: "height (m_root m) \<le> path_capacity"
    using rbt_height_capacity[of "m_root m"] map_inv_bound[OF assms] assms
    by (simp add: map_inv_def foreach_def)
  have d: "distinct (map fst (foreach m))"
    using b strict_sorted_iff by (auto simp: bst_def foreach_def)
  show "contains m k = Inr (k \<in> fst ` set (foreach m))"
    using lookup_correct(1)[OF b h, of "m_size m" k] by (simp add: map_eta foreach_def keys_def)
  show "(\<exists>n p. find_path (m_root m) [] k = Inr (n # p, True) \<and> get_pair n = (k, v)) \<longleftrightarrow>
           (k, v) \<in> set (foreach m)"
    using lookup_correct(2)[OF b h, of k v] map_of_eq_Some_iff[OF d, of k v]
    by (simp add: foreach_def)
qed

lemma rbt_lookup:
  assumes "rbt (m_root m)" and "length (foreach m) \<le> 2 ^ 64"
  shows "(\<exists>n p. find_path (m_root m) [] k = Inr (n # p, True) \<and> get_pair n = (k, v)) \<longleftrightarrow>
           map_of (foreach m) k = Some v"
proof -
  have b: "bst (m_root m)" using assms by (simp add: rbt_def)
  have h: "height (m_root m) \<le> path_capacity"
    using rbt_height_capacity[of "m_root m"] assms by (simp add: foreach_def)
  show ?thesis
    using lookup_correct(2)[OF b h, of k v] by (simp add: foreach_def)
qed



section \<open>The claims\<close>

text \<open>
  C1. After every prefix of a sequence of \<^verbatim>\<open>insert\<close> and \<^verbatim>\<open>erase\<close> calls that starts
  from the empty map, the calls have returned a map on which \<^verbatim>\<open>validate\<close> returns and
  which satisfies the ordering, colour, black-height and black-root invariants. The
  sequence has fewer than \<open>2 ^ 64\<close> calls, so that the number of elements fits
  \<^verbatim>\<open>size_t\<close>.
\<close>

theorem invariants_after_operations:
  assumes "length ops < 2 ^ 64"
  shows "\<forall>n\<le>length ops. \<exists>m. run empty_map (take n ops) = Inr m \<and> validate m = Inr () \<and>
           rbt (m_root m)"
proof (intro allI impI)
  fix n
  assume "n \<le> length ops"
  then have "length (take n ops) < 2 ^ 64" using assms by simp
  then obtain m where "run empty_map (take n ops) = Inr m" "map_inv m"
    using run_empty by blast
  then show "\<exists>m. run empty_map (take n ops) = Inr m \<and> validate m = Inr () \<and> rbt (m_root m)"
    using validate_rbt[of m] by (auto simp: map_inv_def)
qed

theorem invariants_after_operations_witness:
  "\<exists>m. run empty_map example_ops = Inr m \<and> validate m = Inr () \<and> rbt (m_root m)"
  using invariants_after_operations[of example_ops, rule_format, of 4]
  by (simp add: example_ops_def)

text \<open>
  C2. \<^verbatim>\<open>insert\<close> and \<^verbatim>\<open>erase\<close> return a new map and leave the receiver as it was. In the store
  of nodes, let the root of the map \<open>m0\<close> stand for the tree \<open>t\<close>. After \<open>insert_st m0 kvp\<close> and
  after \<open>erase_st m0 key\<close>, whether the call returned a map or failed, every node that was in the
  store is unchanged, the root of \<open>m0\<close> stands for the same tree \<open>t\<close>, its traversal returns the
  same pairs, and \<^verbatim>\<open>contains\<close> and \<^verbatim>\<open>find\<close> return for every key \<open>k\<close> what they returned before. The
  size of \<open>m0\<close> is the member \<open>s_size m0\<close> of the receiver, which neither function assigns.
\<close>

theorem receiver_unchanged:
  assumes "repr s (s_root m0) t"
  shows "same_view m0 k s (snd (insert_st m0 kvp s)) \<and>
         same_view m0 k s (snd (erase_st m0 key s)) \<and>
         repr (snd (insert_st m0 kvp s)) (s_root m0) t \<and>
         repr (snd (erase_st m0 key s)) (s_root m0) t \<and>
         foreach_on (snd (insert_st m0 kvp s)) (s_root m0) = Some (Inr (foreach_ptr t)) \<and>
         foreach_on (snd (erase_st m0 key s)) (s_root m0) = Some (Inr (foreach_ptr t))"
proof -
  have i: "take (length s) (snd (insert_st m0 kvp s)) = s"
    by (rule pres_take [OF pres_insert])
  have e: "take (length s) (snd (erase_st m0 key s)) = s"
    by (rule pres_take [OF pres_erase])
  from same_view_extend [OF assms i] same_view_extend [OF assms e]
    repr_extend [OF assms i] repr_extend [OF assms e]
    foreach_on_repr [OF repr_extend [OF assms i]] foreach_on_repr [OF repr_extend [OF assms e]]
  show ?thesis by simp
qed

theorem receiver_unchanged_witness:
  "repr example_store (s_root example_receiver) example_tree \<and>
   same_view example_receiver 2 example_store
     (snd (insert_st example_receiver (4, 40) example_store)) \<and>
   same_view example_receiver 2 example_store
     (snd (erase_st example_receiver 2 example_store)) \<and>
   foreach_on (snd (erase_st example_receiver 2 example_store)) (s_root example_receiver) =
     Some (Inr [(1, 10), (2, 20), (3, 30)])"
  using receiver_unchanged [OF example_repr, of 2 "(4, 40)" 2] example_repr
  by (simp add: example_tree_def)

text \<open>
  C3. The claim is about \<^verbatim>\<open>at\<close>, of which no call compiles, so that the code returns no value at
  all for \<^verbatim>\<open>at(insert(m, k, v), k)\<close>. What the code does up to there, on a red-black map whose
  counter is its number of elements: inserting \<open>(k, v1)\<close> returns a map in which \<^verbatim>\<open>find\<close> stops
  with a match at a node that holds \<open>(k, v1)\<close>; inserting \<open>(k, v2)\<close> into that map returns a map
  of the same size in which it stops at a node that holds \<open>(k, v2)\<close>; and when the map did not
  contain \<open>k\<close>, the size after the first insertion is the size before plus one (in \<^verbatim>\<open>size_t\<close>
  arithmetic, and as a number unless the counter was at its maximum).
\<close>

theorem insert_then_find:
  assumes "map_inv m"
  shows "\<exists>m1. insert_m m (k, v1) = Inr m1 \<and>
           (\<exists>n p. find_path (m_root m1) [] k = Inr (n # p, True) \<and> get_pair n = (k, v1)) \<and>
           (\<exists>m2. insert_m m1 (k, v2) = Inr m2 \<and> size_m m2 = size_m m1 \<and>
              (\<exists>n p. find_path (m_root m2) [] k = Inr (n # p, True) \<and> get_pair n = (k, v2))) \<and>
           (contains m k = Inr False \<longrightarrow>
              size_m m1 = size_m m + 1 \<and>
              (size_m m \<noteq> - 1 \<longrightarrow> unat (size_m m1) = Suc (unat (size_m m))))"
proof -
  have r: "rbt (m_root m)" and le: "length (foreach m) \<le> 2 ^ 64"
    using assms map_inv_bound[OF assms] by (simp_all add: map_inv_def)
  obtain m1 where m1: "insert_m m (k, v1) = Inr m1" "rbt (m_root m1)"
    "foreach m1 = filter (\<lambda>x. fst x < k) (foreach m) @ [(k, v1)] @ filter (\<lambda>x. k < fst x) (foreach m)"
    "m_size m1 = (if k \<in> keys (m_root m) then m_size m else m_size m + 1)"
    "length (foreach m1) = (if k \<in> keys (m_root m) then length (foreach m) else Suc (length (foreach m)))"
    using insert_m_correct[OF r le, of k v1] by auto
  have le1: "length (foreach m1) \<le> 2 ^ 64"
    using m1(5) map_inv_bound[OF assms] by (simp split: if_splits)
  have at1: "\<exists>n p. find_path (m_root m1) [] k = Inr (n # p, True) \<and> get_pair n = (k, v1)"
    using rbt_lookup[OF m1(2) le1, of k v1] map_of_inserted[of k "foreach m" v1] m1(3) by simp
  have k1: "k \<in> keys (m_root m1)"
    using m1(3) inserted_key[of k _ v1] by (simp add: keys_def foreach_def)
  obtain m2 where m2: "insert_m m1 (k, v2) = Inr m2" "rbt (m_root m2)"
    "foreach m2 = filter (\<lambda>x. fst x < k) (foreach m1) @ [(k, v2)] @ filter (\<lambda>x. k < fst x) (foreach m1)"
    "m_size m2 = m_size m1" "length (foreach m2) = length (foreach m1)"
    using insert_m_correct[OF m1(2) le1, of k v2] k1 by auto
  have at2: "\<exists>n p. find_path (m_root m2) [] k = Inr (n # p, True) \<and> get_pair n = (k, v2)"
    using rbt_lookup[OF m2(2), of k v2] map_of_inserted[of k "foreach m1" v2] m2(3,5) le1 by simp
  have sz: "contains m k = Inr False \<Longrightarrow> m_size m1 = m_size m + 1"
    using map_inv_lookup(1)[OF assms, of k] m1(4) by (simp add: keys_def foreach_def)
  have "unat (m_size m + 1) = Suc (unat (m_size m))" if "m_size m \<noteq> - 1"
  proof -
    have "1 + m_size m \<noteq> 0"
      using that eq_neg_iff_add_eq_0[of "m_size m" 1] by (simp only: add.commute) simp
    then have "unat (1 + m_size m) = Suc (unat (m_size m))" by (rule unatSuc)
    then show ?thesis by (simp add: add.commute)
  qed
  then show ?thesis
    using m1(1) at1 m2(1,4) at2 sz by (auto simp: size_m_def)
qed

theorem insert_then_find_witness:
  "map_inv example_map \<and> contains example_map 5 = Inr False \<and>
   (\<exists>m1. insert_m example_map (5, 7) = Inr m1 \<and>
      (\<exists>n p. find_path (m_root m1) [] 5 = Inr (n # p, True) \<and> get_pair n = (5, 7)) \<and>
      size_m m1 = size_m example_map + 1 \<and>
      (\<exists>m2. insert_m m1 (5, 8) = Inr m2 \<and> size_m m2 = size_m m1 \<and>
         (\<exists>n p. find_path (m_root m2) [] 5 = Inr (n # p, True) \<and> get_pair n = (5, 8))))"
proof -
  have c: "contains example_map 5 = Inr False"
    by (simp add: example_map_def contains_def path_ops)
  show ?thesis
    using insert_then_find[OF map_inv_example, of 5 7 8] c map_inv_example by auto
qed

text \<open>
  C4. On such a map that does not contain \<open>k\<close>: erasing \<open>k\<close> after inserting \<open>(k, v)\<close>
  returns a map with the size and the traversal of the original map, and erasing \<open>k\<close>
  from the original map returns a map with the same size and traversal.
\<close>

theorem erase_after_insert:
  assumes "map_inv m" and "contains m k = Inr False"
  shows "(\<exists>m1 m2. insert_m m (k, v) = Inr m1 \<and> erase m1 k = Inr m2 \<and>
            size_m m2 = size_m m \<and> foreach m2 = foreach m) \<and>
         (\<exists>m3. erase m k = Inr m3 \<and> size_m m3 = size_m m \<and> foreach m3 = foreach m)"
proof -
  have r: "rbt (m_root m)" and le: "length (foreach m) \<le> 2 ^ 64"
    using assms map_inv_bound[OF assms(1)] by (simp_all add: map_inv_def)
  have nk: "k \<notin> keys (m_root m)"
    using map_inv_lookup(1)[OF assms(1), of k] assms(2) by (simp add: keys_def foreach_def)
  have srt: "sorted_wrt (<) (map fst (foreach m))"
    using r by (simp add: rbt_def bst_def foreach_def)
  obtain m1 where m1: "insert_m m (k, v) = Inr m1" "rbt (m_root m1)"
    "foreach m1 = filter (\<lambda>x. fst x < k) (foreach m) @ [(k, v)] @ filter (\<lambda>x. k < fst x) (foreach m)"
    "m_size m1 = m_size m + 1" "length (foreach m1) = Suc (length (foreach m))"
    using insert_m_correct[OF r le, of k v] nk by auto
  have le1: "length (foreach m1) \<le> 2 ^ 64"
    using m1(5) map_inv_bound[OF assms(1)] by simp
  have k1: "k \<in> keys (m_root m1)"
    using m1(3) inserted_key[of k _ v] by (simp add: keys_def foreach_def)
  obtain m2 where m2: "erase m1 k = Inr m2"
    "foreach m2 = filter (\<lambda>x. fst x \<noteq> k) (foreach m1)" "m_size m2 = m_size m1 - 1"
    using erase_correct[OF m1(2) le1, of k] k1 by auto
  have "foreach m2 = foreach m"
    unfolding m2(2) m1(3) filter_inserted
    using sorted_filter_split[OF srt] nk by (simp add: keys_def foreach_def)
  moreover have "m_size m2 = m_size m" using m2(3) m1(4) by simp
  moreover have "erase m k = Inr m"
  proof (rule erase_absent)
    show "bst (m_root m)" using r by (simp add: rbt_def)
    show "height (m_root m) \<le> path_capacity"
      using rbt_height_capacity[of "m_root m"] r le by (simp add: foreach_def)
    show "k \<notin> keys (m_root m)" by (rule nk)
  qed
  ultimately show ?thesis
    using m1(1) m2(1) by (auto simp: size_m_def)
qed

theorem erase_after_insert_witness:
  "map_inv example_map \<and> contains example_map 5 = Inr False \<and>
   (\<exists>m1 m2. insert_m example_map (5, 7) = Inr m1 \<and> erase m1 5 = Inr m2 \<and>
      size_m m2 = size_m example_map \<and> foreach m2 = foreach example_map) \<and>
   (\<exists>m3. erase example_map 5 = Inr m3 \<and> size_m m3 = size_m example_map \<and>
      foreach m3 = foreach example_map)"
proof -
  have c: "contains example_map 5 = Inr False"
    by (simp add: example_map_def contains_def path_ops)
  show ?thesis
    using erase_after_insert[OF map_inv_example c, of 7] c map_inv_example by simp
qed

text \<open>
  C5. For every map that a sequence of fewer than \<open>2 ^ 64\<close> calls returns from the empty
  map: the traversal visits the keys in strictly ascending order, no key twice, as many
  pairs as \<^verbatim>\<open>size()\<close> says, and the visited pairs are exactly the pairs \<open>(k, v)\<close> for
  which \<^verbatim>\<open>find\<close> stops with a match for \<open>k\<close> at a node that holds \<open>(k, v)\<close>.
\<close>

theorem traversal_ascending_complete:
  assumes "length ops < 2 ^ 64" and "run empty_map ops = Inr m"
  shows "sorted_wrt (<) (map fst (foreach m)) \<and> distinct (map fst (foreach m)) \<and>
         length (foreach m) = unat (size_m m) \<and>
         (\<forall>k v. (k, v) \<in> set (foreach m) \<longleftrightarrow>
            (\<exists>n p. find_path (m_root m) [] k = Inr (n # p, True) \<and> get_pair n = (k, v)))"
proof -
  have inv: "map_inv m" using run_empty[OF assms(1)] assms(2) by auto
  have s: "sorted_wrt (<) (map fst (foreach m))"
    using inv by (simp add: map_inv_def rbt_def bst_def foreach_def)
  then have d: "distinct (map fst (foreach m))"
    using strict_sorted_iff by blast
  have "(k, v) \<in> set (foreach m) \<longleftrightarrow>
      (\<exists>n p. find_path (m_root m) [] k = Inr (n # p, True) \<and> get_pair n = (k, v))" for k v
    using map_inv_lookup(2)[OF inv, of k v] by simp
  then show ?thesis
    using s d inv by (simp add: map_inv_def size_m_def)
qed

theorem traversal_ascending_complete_witness:
  "\<exists>m. run empty_map example_ops = Inr m \<and>
     sorted_wrt (<) (map fst (foreach m)) \<and> distinct (map fst (foreach m)) \<and>
     length (foreach m) = unat (size_m m) \<and> foreach m = [(1, 10), (2, 20)]"
proof -
  have r: "run empty_map example_ops =
      Inr \<lparr>m_root = Some (Node (2, 20) (Some (Node (1, 10) None None RED)) None BLACK), m_size = 2\<rparr>"
    by (simp add: example_ops_def facade_ops path_ops node_ops erase_ops)
  have l: "length example_ops < 2 ^ 64" by (simp add: example_ops_def)
  show ?thesis
    using traversal_ascending_complete[OF l r] r by (simp add: foreach_def)
qed



text \<open>
  C8. The claim is about \<^verbatim>\<open>at\<close>, of which no call compiles: the code neither returns the value
  nor throws \<^verbatim>\<open>std::out_of_range\<close>. The rest of the claim holds. On a red-black map whose counter
  is its number of elements, \<^verbatim>\<open>contains\<close> returns whether the traversal visits the key, \<^verbatim>\<open>insert\<close>
  returns a map, \<^verbatim>\<open>erase\<close> returns a map, the receiver itself for a key it does not contain, and
  \<^verbatim>\<open>find\<close> stops with a match at a node holding \<open>(k, v)\<close> exactly when the traversal visits
  \<open>(k, v)\<close>.
\<close>

theorem operations_total:
  assumes "map_inv m"
  shows "contains m k = Inr (k \<in> fst ` set (foreach m)) \<and>
         (\<exists>m'. insert_m m (k, v) = Inr m') \<and> (\<exists>m'. erase m k = Inr m') \<and>
         (k \<notin> fst ` set (foreach m) \<longrightarrow> erase m k = Inr m) \<and>
         ((\<exists>n p. find_path (m_root m) [] k = Inr (n # p, True) \<and> get_pair n = (k, v)) \<longleftrightarrow>
            (k, v) \<in> set (foreach m))"
proof -
  have r: "rbt (m_root m)" and le: "length (foreach m) \<le> 2 ^ 64"
    using assms map_inv_bound[OF assms] by (simp_all add: map_inv_def)
  have ab: "erase m k = Inr m" if "k \<notin> fst ` set (foreach m)"
  proof (rule erase_absent)
    show "bst (m_root m)" using r by (simp add: rbt_def)
    show "height (m_root m) \<le> path_capacity"
      using rbt_height_capacity[of "m_root m"] r le by (simp add: foreach_def)
    show "k \<notin> keys (m_root m)" using that by (simp add: keys_def foreach_def)
  qed
  show ?thesis
    using ab map_inv_lookup(1)[OF assms, of k] map_inv_lookup(2)[OF assms, of k v]
      insert_m_correct[OF r le, of k v]
      erase_correct[OF r le, of k] by blast
qed

theorem operations_total_witness:
  "map_inv example_map \<and>
   contains example_map 10 = Inr True \<and> contains example_map 5 = Inr False \<and>
   erase example_map 5 = Inr example_map \<and> (\<exists>m'. insert_m example_map (5, 1) = Inr m') \<and>
   (\<exists>n p. find_path (m_root example_map) [] 10 = Inr (n # p, True) \<and> get_pair n = (10, 1))"
proof -
  have f: "foreach example_map = [(10, 1)]" by (simp add: example_map_def foreach_def)
  show ?thesis
    using operations_total[OF map_inv_example, of 10 1] operations_total[OF map_inv_example, of 5 1]
      map_inv_example by (simp add: f)
qed

text \<open>
  C9. The scenario of the README, run in the store of nodes from the empty map and the empty
  store. The three insertions and the erasure return. In the store that the erasure leaves,
  \<open>map4\<close> has size 2, does not contain 11 and is traversed as [(10, 3.14), (20, 3.14)], and
  \<open>map3\<close>, observed in that same store, has size 3, contains 15 and is traversed with its three
  pairs. \<^verbatim>\<open>map4.at(10)\<close> does not compile, so that the code gives no value for it; \<^verbatim>\<open>find\<close> for 10
  in \<open>map4\<close> stops with a match at a node that holds (10, 3.14). The values are the reals 3.14
  and 6.28: the map only stores them.
\<close>

theorem usage_scenario:
  "\<exists>map1 s1 map2 s2 map3 s3 map4 s4.
     insert_st empty_st (10::int, 3.14::real) [] = (Inr map1, s1) \<and>
     insert_st map1 (15, 6.28) s1 = (Inr map2, s2) \<and>
     insert_st map2 (20, 3.14) s2 = (Inr map3, s3) \<and>
     erase_st map3 15 s3 = (Inr map4, s4) \<and>
     size_st map4 = 2 \<and> contains_st map4 11 s4 = (Inr False, s4) \<and>
     foreach_on s4 (s_root map4) = Some (Inr [(10, 3.14), (20, 3.14)]) \<and>
     (\<exists>n p. find_path_st (s_root map4) [] 10 s4 = (Inr (n # p, True), s4) \<and>
        h_kvp (s4 ! n) = (10, 3.14)) \<and>
     size_st map3 = 3 \<and> contains_st map3 15 s4 = (Inr True, s4) \<and>
     foreach_on s4 (s_root map3) = Some (Inr [(10, 3.14), (15, 6.28), (20, 3.14)])"
  apply (intro exI conjI)
             apply (rule st_scenario_1)
            apply (rule st_scenario_2)
           apply (rule st_scenario_3)
          apply (rule st_scenario_4)
         apply (simp only: st_scenario_view4 stored_map.simps)
        apply (simp only: st_scenario_view4)
       apply (simp only: st_scenario_view4 stored_map.simps)
      apply (simp only: stored_map.simps, rule st_scenario_view4(4))
     apply (rule st_scenario_view4(5))
    apply (simp only: st_scenario_view3)
   apply (simp only: st_scenario_view3)
  apply (simp only: st_scenario_view3 stored_map.simps)
  done

text \<open>
  C10. A null sibling at any call of \<^verbatim>\<open>delete_fixup\<close> makes the call fail with the null
  dereference of \<^verbatim>\<open>sibling\<close>, and every failure inside an erasure is the result of the
  erasure. No erasure on a red-black map whose counter is its number of elements fails
  with it: the sibling is a node at every call.
\<close>

theorem sibling_never_null:
  "(get_child (opposite side) parent = None \<longrightarrow>
      delete_fixup p parent side = Inl (Null_deref ''sibling'')) \<and>
   (map_inv m \<longrightarrow> erase m k \<noteq> Inl (Null_deref ''sibling''))"
proof -
  have "erase m k \<noteq> Inl (Null_deref ''sibling'')" if inv: "map_inv m"
  proof -
    have r: "rbt (m_root m)" and le: "length (foreach m) \<le> 2 ^ 64"
      using inv map_inv_bound[OF inv] by (simp_all add: map_inv_def)
    show ?thesis using erase_correct[OF r le, of k] by auto
  qed
  moreover have "delete_fixup p parent side = Inl (Null_deref ''sibling'')"
    if "get_child (opposite side) parent = None"
    using that by (subst delete_fixup.simps) (simp add: has_black_sibling_with_red_child_def)
  ultimately show ?thesis by blast
qed

theorem sibling_never_null_witness:
  "map_inv example_map3 \<and> erase example_map3 1 \<noteq> Inl (Null_deref ''sibling'') \<and>
   erase example_map3 1 =
     Inr \<lparr>m_root = Some (Node (2, 20) None (Some (Node (3, 30) None None RED)) BLACK), m_size = 2\<rparr> \<and>
   delete_fixup [] (Node (2, 20) None None BLACK) LEFT = Inl (Null_deref ''sibling'')"
proof -
  have i: "map_inv example_map3"
    by (simp add: map_inv_def example_map3_def rbt_def bst_def foreach_def)
  have e: "erase example_map3 1 =
     Inr \<lparr>m_root = Some (Node (2, 20) None (Some (Node (3, 30) None None RED)) BLACK), m_size = 2\<rparr>"
    by (simp add: example_map3_def facade_ops path_ops node_ops erase_ops delete_fixup.simps)
  show ?thesis
    using sibling_never_null[of LEFT "Node (2, 20) None None BLACK" "[]" example_map3 1] i e
    by simp
qed

end
